theory Spec2Isabelle
  imports Complex_Main "HOL-Library.Log_Nat"
begin

section \<open>JavaScript numbers\<close>

text \<open>
  A JavaScript Number is an IEEE 754 binary64 value.  The finite ones are carried by the
  rational they denote; every arithmetic operator computes the exact rational result and
  rounds it to the nearest binary64 value, ties to the even significand, overflowing to an
  infinity.  The two zeros are identified: the program divides by the powers of ten 100 and
  1000 only, so the sign of a zero reaches no other result, the two zeros compare equal,
  and both are serialised as 0.
\<close>

datatype jsnum = NaN | PInf | NInf | Fin rat

text \<open>\<open>ilog2 a\<close> is the binary exponent of a positive rational: \<open>2^e \<le> a < 2^(e+1)\<close>.\<close>

definition ilog2 :: "rat \<Rightarrow> int" where
  "ilog2 a = (if 1 \<le> a then bitlen \<lfloor>a\<rfloor> - 1
              else let b = bitlen \<lfloor>1 / a\<rfloor>
                   in if 2 powi (1 - b) \<le> a then 1 - b else - b)"

text \<open>Nearest integer, ties to even.\<close>

definition rne :: "rat \<Rightarrow> int" where
  "rne r = (let f = \<lfloor>r\<rfloor>; d = r - of_int f
            in if d < 1 / 2 then f
               else if 1 / 2 < d then f + 1
               else if even f then f else f + 1)"

text \<open>
  Rounding of a non-negative rational to binary64 precision: 53 significant bits, the least
  exponent of the unit in the last place being \<open>-1074\<close> (subnormals).
\<close>

definition ulp_exp :: "rat \<Rightarrow> int" where
  "ulp_exp a = max (ilog2 a - 52) (- 1074)"

definition round_mag :: "rat \<Rightarrow> rat" where
  "round_mag a = of_int (rne (a / 2 powi ulp_exp a)) * 2 powi ulp_exp a"

definition fl :: "rat \<Rightarrow> jsnum" where
  "fl q = (if q = 0 then Fin 0
           else let r = round_mag \<bar>q\<bar>
                in if 2 ^ 1024 \<le> r then (if 0 < q then PInf else NInf)
                   else Fin (if 0 < q then r else - r))"

text \<open>A decimal literal of the source denotes the binary64 value nearest to it.\<close>

definition lit :: "rat \<Rightarrow> jsnum" where
  "lit q = fl q"

fun fneg :: "jsnum \<Rightarrow> jsnum" where
  "fneg NaN = NaN"
| "fneg PInf = NInf"
| "fneg NInf = PInf"
| "fneg (Fin a) = Fin (- a)"

fun fadd :: "jsnum \<Rightarrow> jsnum \<Rightarrow> jsnum" where
  "fadd NaN _ = NaN"
| "fadd _ NaN = NaN"
| "fadd PInf NInf = NaN"
| "fadd NInf PInf = NaN"
| "fadd PInf _ = PInf"
| "fadd _ PInf = PInf"
| "fadd NInf _ = NInf"
| "fadd _ NInf = NInf"
| "fadd (Fin a) (Fin b) = fl (a + b)"

fun fsub :: "jsnum \<Rightarrow> jsnum \<Rightarrow> jsnum" where
  "fsub NaN _ = NaN"
| "fsub _ NaN = NaN"
| "fsub PInf PInf = NaN"
| "fsub NInf NInf = NaN"
| "fsub PInf _ = PInf"
| "fsub _ NInf = PInf"
| "fsub NInf _ = NInf"
| "fsub _ PInf = NInf"
| "fsub (Fin a) (Fin b) = fl (a - b)"

text \<open>The sign of an infinite product; zero times infinity is NaN.\<close>

definition inf_signed :: "rat \<Rightarrow> jsnum" where
  "inf_signed s = (if s = 0 then NaN else if 0 < s then PInf else NInf)"

fun fmul :: "jsnum \<Rightarrow> jsnum \<Rightarrow> jsnum" where
  "fmul NaN _ = NaN"
| "fmul _ NaN = NaN"
| "fmul PInf PInf = PInf"
| "fmul PInf NInf = NInf"
| "fmul NInf PInf = NInf"
| "fmul NInf NInf = PInf"
| "fmul PInf (Fin b) = inf_signed b"
| "fmul NInf (Fin b) = inf_signed (- b)"
| "fmul (Fin a) PInf = inf_signed a"
| "fmul (Fin a) NInf = inf_signed (- a)"
| "fmul (Fin a) (Fin b) = fl (a * b)"

fun fdiv :: "jsnum \<Rightarrow> jsnum \<Rightarrow> jsnum" where
  "fdiv NaN _ = NaN"
| "fdiv _ NaN = NaN"
| "fdiv PInf PInf = NaN"
| "fdiv PInf NInf = NaN"
| "fdiv NInf PInf = NaN"
| "fdiv NInf NInf = NaN"
| "fdiv PInf (Fin b) = (if 0 \<le> b then PInf else NInf)"
| "fdiv NInf (Fin b) = (if 0 \<le> b then NInf else PInf)"
| "fdiv (Fin a) PInf = Fin 0"
| "fdiv (Fin a) NInf = Fin 0"
| "fdiv (Fin a) (Fin b) =
     (if b = 0 then inf_signed a else fl (a / b))"

text \<open>The relational operators: every comparison with NaN is false.\<close>

fun jsle :: "jsnum \<Rightarrow> jsnum \<Rightarrow> bool" where
  "jsle NaN _ = False"
| "jsle _ NaN = False"
| "jsle NInf _ = True"
| "jsle _ PInf = True"
| "jsle PInf _ = False"
| "jsle _ NInf = False"
| "jsle (Fin a) (Fin b) = (a \<le> b)"

definition jsge :: "jsnum \<Rightarrow> jsnum \<Rightarrow> bool" where
  "jsge x y = jsle y x"

fun jslt :: "jsnum \<Rightarrow> jsnum \<Rightarrow> bool" where
  "jslt NaN _ = False"
| "jslt _ NaN = False"
| "jslt PInf _ = False"
| "jslt _ NInf = False"
| "jslt NInf _ = True"
| "jslt _ PInf = True"
| "jslt (Fin a) (Fin b) = (a < b)"

text \<open>\<open>Number.isNaN\<close> and the truthiness of a Number (\<open>!x\<close> holds for 0 and NaN).\<close>

definition isNaN :: "jsnum \<Rightarrow> bool" where
  "isNaN x = (x = NaN)"

definition falsy_num :: "jsnum \<Rightarrow> bool" where
  "falsy_num x = (x = NaN \<or> x = Fin 0)"

text \<open>
  \<open>Math.round\<close>: the integral Number closest to the argument, the one closer to
  \<open>+\<infinity>\<close> when two are equally close; NaN and the infinities are returned unchanged.
\<close>

fun Math_round :: "jsnum \<Rightarrow> jsnum" where
  "Math_round (Fin y) = Fin (of_int \<lfloor>y + 1 / 2\<rfloor>)"
| "Math_round x = x"

text \<open>\<open>Math.pow(10, decimals)\<close> for a non-negative integer number of decimals.\<close>

definition Math_pow10 :: "nat \<Rightarrow> jsnum" where
  "Math_pow10 d = fl (10 ^ d)"

subsection \<open>Representable values\<close>

text \<open>
  The rationals a finite Number can hold: a significand below \<open>2^53\<close> in magnitude, scaled by a
  power of two no smaller than \<open>2^-1074\<close>, of magnitude below \<open>2^1024\<close>.
\<close>

definition is_double :: "rat \<Rightarrow> bool" where
  "is_double r \<longleftrightarrow>
     (\<exists>m k. r = of_int m * 2 powi k \<and> \<bar>m\<bar> < 2 ^ 53 \<and> - 1074 \<le> k) \<and> \<bar>r\<bar> < 2 ^ 1024"

text \<open>The same, decided by rounding: a Number is a value that rounding leaves alone.\<close>

fun is_binary64 :: "jsnum \<Rightarrow> bool" where
  "is_binary64 (Fin q) = (fl q = Fin q)"
| "is_binary64 x = True"

subsection \<open>Rounding in stages\<close>

text \<open>
  The same rounding, cut into steps that each take the values already computed as
  arguments; the simplifier evaluates \<open>fl\<close> on a numeral through them (lemma \<open>fl_staged\<close>).
\<close>

definition ilog2_stage :: "rat \<Rightarrow> int \<Rightarrow> int" where
  "ilog2_stage a b = (if 2 powi (1 - b) \<le> a then 1 - b else - b)"

definition rne_stage :: "rat \<Rightarrow> int \<Rightarrow> int" where
  "rne_stage r f = (if r - of_int f < 1 / 2 then f
                    else if 1 / 2 < r - of_int f then f + 1
                    else if even f then f else f + 1)"

definition fl_stage3 :: "rat \<Rightarrow> int \<Rightarrow> int \<Rightarrow> int \<Rightarrow> jsnum" where
  "fl_stage3 q e p m =
     (if e = 1023 \<and> 2 ^ 53 \<le> m then (if 0 < q then PInf else NInf)
      else Fin (if 0 < q then of_int m * 2 powi p else - (of_int m * 2 powi p)))"

definition fl_stage2 :: "rat \<Rightarrow> int \<Rightarrow> int \<Rightarrow> jsnum" where
  "fl_stage2 q e p = fl_stage3 q e p (rne (\<bar>q\<bar> / 2 powi p))"

definition fl_stage1 :: "rat \<Rightarrow> int \<Rightarrow> jsnum" where
  "fl_stage1 q e =
     (if 1023 < e then (if 0 < q then PInf else NInf)
      else fl_stage2 q e (max (e - 52) (- 1074)))"

section \<open>Values crossing the interface\<close>

text \<open>
  The values \<open>fck\<close> can hold when it arrives from a JSON body or from a caller; \<open>undefined\<close>
  is an absent argument.  \<open>Number(v)\<close> follows the language's \<open>ToNumber\<close>; the conversion of
  a string to a Number is the runtime's \<open>StringToNumber\<close>, taken here as a parameter.
  Arrays and objects, which \<open>Number\<close> converts through their string form, are left out.
\<close>

datatype jsval = JUndefined | JNull | JBool bool | JNum jsnum | JStr string

fun Number_js :: "(string \<Rightarrow> jsnum) \<Rightarrow> jsval \<Rightarrow> jsnum" where
  "Number_js s2n JUndefined = NaN"
| "Number_js s2n JNull = Fin 0"
| "Number_js s2n (JBool b) = (if b then Fin 1 else Fin 0)"
| "Number_js s2n (JNum n) = n"
| "Number_js s2n (JStr s) = s2n s"

text \<open>
  A string conversion for the closed examples below, which pass Numbers and convert no
  string.
\<close>

definition unparsed :: "string \<Rightarrow> jsnum" where
  "unparsed s = NaN"

section \<open>The exposure table\<close>

record exposure =
  key :: string
  label :: string
  maxWc :: jsnum
  minCement :: jsnum
  minGradeFck :: jsnum

definition mild :: exposure where
  "mild = \<lparr>key = ''mild'', label = ''Mild (RCC)'',
     maxWc = lit (55 / 100), minCement = lit 300, minGradeFck = lit 20\<rparr>"

definition moderate :: exposure where
  "moderate = \<lparr>key = ''moderate'', label = ''Moderate (RCC)'',
     maxWc = lit (5 / 10), minCement = lit 300, minGradeFck = lit 25\<rparr>"

definition severe :: exposure where
  "severe = \<lparr>key = ''severe'', label = ''Severe (RCC)'',
     maxWc = lit (45 / 100), minCement = lit 320, minGradeFck = lit 30\<rparr>"

definition verySevere :: exposure where
  "verySevere = \<lparr>key = ''verySevere'', label = ''Very Severe (RCC)'',
     maxWc = lit (45 / 100), minCement = lit 340, minGradeFck = lit 35\<rparr>"

definition extreme :: exposure where
  "extreme = \<lparr>key = ''extreme'', label = ''Extreme (RCC)'',
     maxWc = lit (4 / 10), minCement = lit 360, minGradeFck = lit 40\<rparr>"

text \<open>The own properties of the object literal \<open>EXPOSURES\<close>, in source order.\<close>

definition EXPOSURES :: "(string \<times> exposure) list" where
  "EXPOSURES = [(''mild'', mild), (''moderate'', moderate), (''severe'', severe),
     (''verySevere'', verySevere), (''extreme'', extreme)]"

text \<open>
  \<open>EXPOSURES\<close> is an ordinary object, so a property read that finds no own property goes
  on to \<open>Object.prototype\<close>.  These are the property names the language defines there
  (the standard ones and the legacy accessors of its Annex B); each of them holds a function,
  and \<open>__proto__\<close> yields the prototype object itself, so every one of them is truthy.
\<close>

definition Object_prototype_keys :: "string list" where
  "Object_prototype_keys = [''constructor'', ''hasOwnProperty'', ''isPrototypeOf'',
     ''propertyIsEnumerable'', ''toLocaleString'', ''toString'', ''valueOf'', ''__proto__'',
     ''__defineGetter__'', ''__defineSetter__'', ''__lookupGetter__'', ''__lookupSetter__'']"

text \<open>What a property read \<open>EXPOSURES[k]\<close> can give.\<close>

datatype limits = ExposureClass exposure | Inherited string

text \<open>
  The property key of \<open>EXPOSURES[exposureKey]\<close>: an absent identifier reads the property
  named \<open>undefined\<close>.
\<close>

definition property_key :: "string option \<Rightarrow> string" where
  "property_key k = (case k of None \<Rightarrow> ''undefined'' | Some s \<Rightarrow> s)"

definition get_EXPOSURES :: "string \<Rightarrow> limits option" where
  "get_EXPOSURES k =
     (case map_of EXPOSURES k of
        Some e \<Rightarrow> Some (ExposureClass e)
      | None \<Rightarrow> if k \<in> set Object_prototype_keys then Some (Inherited k) else None)"

text \<open>\<open>EXPOSURES[exposureKey] || EXPOSURES.mild\<close>: every value a read can give is truthy.\<close>

definition resolve_limits :: "string option \<Rightarrow> limits" where
  "resolve_limits exposureKey =
     (case get_EXPOSURES (property_key exposureKey) of
        Some l \<Rightarrow> l
      | None \<Rightarrow> ExposureClass mild)"

text \<open>
  A limit as a relational operator sees it: the field of an exposure class; on an inherited
  member the field is \<open>undefined\<close>, which the operator converts to NaN.
\<close>

fun limit_of :: "(exposure \<Rightarrow> jsnum) \<Rightarrow> limits \<Rightarrow> jsnum" where
  "limit_of f (ExposureClass e) = f e"
| "limit_of f (Inherited k) = NaN"

section \<open>Rounding helper\<close>

text \<open>
  \<open>round(value, decimals)\<close>: \<open>None\<close> is \<open>null\<close> (or \<open>undefined\<close>) on both sides.
\<close>

definition round_js :: "jsnum option \<Rightarrow> nat \<Rightarrow> jsnum option" where
  "round_js value' decimals =
     (case value' of
        None \<Rightarrow> None
      | Some v \<Rightarrow>
          if isNaN v then None
          else let factor = Math_pow10 decimals
               in Some (fdiv (Math_round (fmul v factor)) factor))"

section \<open>The mix design\<close>

record checks =
  isWcOk :: bool
  isCementOk :: bool
  isGradeOk :: bool
  limits :: limits

record mix_result =
  fckMean :: "jsnum option"
  w_c :: "jsnum option"
  water :: "jsnum option"
  cement :: "jsnum option"
  fineAgg :: "jsnum option"
  coarseAgg :: "jsnum option"
  checks :: checks

text \<open>The six regressions, as the source writes them (lines 62 to 67).\<close>

definition fckMean_raw :: "jsnum \<Rightarrow> jsnum" where
  "fckMean_raw x =
     fadd (fadd (fmul (fmul (fneg (lit (35 / 10000))) x) x) (fmul (lit (13074 / 10000)) x))
       (lit (16883 / 10000))"

definition w_c_raw :: "jsnum \<Rightarrow> jsnum" where
  "w_c_raw x =
     fadd (fsub (fmul (fmul (lit (9 / 1000000)) x) x) (fmul (lit (44 / 10000)) x))
       (lit (5617 / 10000))"

definition water_raw :: "jsnum \<Rightarrow> jsnum" where
  "water_raw x =
     fadd (fsub (fmul (fmul (fneg (lit (107 / 10000))) x) x) (fmul (lit (941 / 10000)) x))
       (lit (19556 / 100))"

definition cement_raw :: "jsnum \<Rightarrow> jsnum" where
  "cement_raw x =
     fadd (fadd (fmul (fmul (fneg (lit (308 / 10000))) x) x) (fmul (lit (47223 / 10000)) x))
       (lit (29878 / 100))"

definition fineAgg_raw :: "jsnum \<Rightarrow> jsnum" where
  "fineAgg_raw x =
     fadd (fadd (fmul (fmul (fneg (lit (1156 / 10000))) x) x) (fmul (lit (10473 / 1000)) x))
       (lit (48442 / 100))"

definition coarseAgg_raw :: "jsnum \<Rightarrow> jsnum" where
  "coarseAgg_raw x =
     fadd (fsub (fmul (fmul (lit (335 / 10000)) x) x) (fmul (lit (52723 / 10000)) x))
       (lit (12344 / 10))"

text \<open>The guard of line 58: \<open>!x || Number.isNaN(x) || x <= 0\<close>.\<close>

definition invalid_strength :: "jsnum \<Rightarrow> bool" where
  "invalid_strength x \<longleftrightarrow> falsy_num x \<or> isNaN x \<or> jsle x (Fin 0)"

definition computeMixDesign ::
    "(string \<Rightarrow> jsnum) \<Rightarrow> jsval \<Rightarrow> string option \<Rightarrow> mix_result option" where
  "computeMixDesign s2n fck exposureKey =
     (let x = Number_js s2n fck
      in if invalid_strength x then None
         else
           let limits = resolve_limits exposureKey;
               fckMean = fckMean_raw x;
               w_c = w_c_raw x;
               water = water_raw x;
               cement = cement_raw x;
               fineAgg = fineAgg_raw x;
               coarseAgg = coarseAgg_raw x;
               isWcOk = jsle w_c (limit_of maxWc limits);
               isCementOk = jsge cement (limit_of minCement limits);
               isGradeOk = jsge x (limit_of minGradeFck limits)
           in Some \<lparr>fckMean = round_js (Some fckMean) 2,
                     w_c = round_js (Some w_c) 3,
                     water = round_js (Some water) 2,
                     cement = round_js (Some cement) 2,
                     fineAgg = round_js (Some fineAgg) 2,
                     coarseAgg = round_js (Some coarseAgg) 2,
                     checks = \<lparr>isWcOk = isWcOk, isCementOk = isCementOk,
                       isGradeOk = isGradeOk, limits = limits\<rparr>\<rparr>)"

text \<open>The emitted fields with the regression and the number of decimals of each (lines 74 to 79).\<close>

definition outputs :: "((mix_result \<Rightarrow> jsnum option) \<times> (jsnum \<Rightarrow> jsnum) \<times> nat) list" where
  "outputs = [(fckMean, fckMean_raw, 2), (w_c, w_c_raw, 3), (water, water_raw, 2),
     (cement, cement_raw, 2), (fineAgg, fineAgg_raw, 2), (coarseAgg, coarseAgg_raw, 2)]"

fun finite_field :: "jsnum option \<Rightarrow> bool" where
  "finite_field (Some (Fin v)) = True"
| "finite_field _ = False"

definition all_finite :: "mix_result \<Rightarrow> bool" where
  "all_finite r \<longleftrightarrow> finite_field (fckMean r) \<and> finite_field (w_c r) \<and> finite_field (water r)
     \<and> finite_field (cement r) \<and> finite_field (fineAgg r) \<and> finite_field (coarseAgg r)"

section \<open>The specification's formulas\<close>

text \<open>
  The specification's quadratic family \<open>a\<cdot>x\<^sup>2 + b\<cdot>x + c\<close> with signed coefficients, computed
  with the Number operators in the order in which the language evaluates \<open>a*x*x + b*x + c\<close>.
\<close>

definition quadratic :: "rat \<Rightarrow> rat \<Rightarrow> rat \<Rightarrow> jsnum \<Rightarrow> jsnum" where
  "quadratic a b c x = fadd (fadd (fmul (fmul (lit a) x) x) (fmul (lit b) x)) (lit c)"

text \<open>
  The specification's table: each output with its number of decimals and its coefficients
  \<open>a\<close>, \<open>b\<close>, \<open>c\<close>.
\<close>

definition regressions :: "((mix_result \<Rightarrow> jsnum option) \<times> nat \<times> rat \<times> rat \<times> rat) list" where
  "regressions =
    [(fckMean, 2, - (35 / 10000), 13074 / 10000, 16883 / 10000),
     (w_c, 3, 9 / 1000000, - (44 / 10000), 5617 / 10000),
     (water, 2, - (107 / 10000), - (941 / 10000), 19556 / 100),
     (cement, 2, - (308 / 10000), 47223 / 10000, 29878 / 100),
     (fineAgg, 2, - (1156 / 10000), 10473 / 1000, 48442 / 100),
     (coarseAgg, 2, 335 / 10000, - (52723 / 10000), 12344 / 10)]"

text \<open>
  The specification's rounding policy: the nearest integer, a tie going away from zero,
  on the value scaled by a power of ten.
\<close>

definition half_away :: "rat \<Rightarrow> int" where
  "half_away y = (if 0 \<le> y then \<lfloor>y + 1 / 2\<rfloor> else - \<lfloor>- y + 1 / 2\<rfloor>)"

fun round_half_away :: "jsnum \<Rightarrow> jsnum" where
  "round_half_away (Fin y) = Fin (of_int (half_away y))"
| "round_half_away x = x"

definition spec_round :: "jsnum \<Rightarrow> nat \<Rightarrow> jsnum option" where
  "spec_round v decimals =
     (if isNaN v then None
      else Some (fdiv (round_half_away (fmul v (Math_pow10 decimals))) (Math_pow10 decimals)))"

section \<open>Facts about rounding\<close>

subsection \<open>Powers of two and the binary exponent\<close>

lemma pow2_pos [simp]: "0 < (2::rat) powi k"
  by simp

lemma pow2_mono: "i \<le> j \<Longrightarrow> (2::rat) powi i \<le> 2 powi j"
  by (rule power_int_increasing) simp_all

lemma pow2_strict_mono: "i < j \<Longrightarrow> (2::rat) powi i < 2 powi j"
  by (rule power_int_strict_increasing) simp_all

lemma pow2_int: "0 \<le> k \<Longrightarrow> (2::rat) powi k = of_int (2 ^ nat k)"
  by (simp add: power_int_def)

lemma bitlen_pow_bounds:
  assumes n: "0 < n"
  shows "(2::rat) powi (bitlen n - 1) \<le> of_int n" and "of_int n + 1 \<le> (2::rat) powi bitlen n"
proof -
  have b1: "1 \<le> bitlen n" using n bitlen_eq_zero_iff[of n] bitlen_nonneg[of n] by linarith
  have "(2::int) ^ nat (bitlen n - 1) \<le> n" using bitlen_bounds[OF n] by simp
  then have "(of_int ((2::int) ^ nat (bitlen n - 1))::rat) \<le> of_int n" by (simp only: of_int_le_iff)
  then show "(2::rat) powi (bitlen n - 1) \<le> of_int n" using b1 by (simp add: power_int_def)
  have "n + 1 \<le> (2::int) ^ nat (bitlen n)" using bitlen_bounds[OF n] by simp
  then have "(of_int (n + 1)::rat) \<le> of_int ((2::int) ^ nat (bitlen n))" by (simp only: of_int_le_iff)
  then show "of_int n + 1 \<le> (2::rat) powi bitlen n" using b1 by (simp add: power_int_def)
qed

lemma ilog2_bounds:
  assumes "0 < a"
  shows "2 powi (ilog2 a) \<le> a" and "a < 2 powi (ilog2 a + 1)"
proof -
  have "2 powi (ilog2 a) \<le> a \<and> a < 2 powi (ilog2 a + 1)"
  proof (cases "1 \<le> a")
    case True
    then have n: "0 < \<lfloor>a\<rfloor>" by simp
    have il: "ilog2 a = bitlen \<lfloor>a\<rfloor> - 1" using True by (simp add: ilog2_def)
    have f: "of_int \<lfloor>a\<rfloor> \<le> a" "a < of_int \<lfloor>a\<rfloor> + 1" by linarith+
    have "bitlen \<lfloor>a\<rfloor> - 1 + 1 = bitlen \<lfloor>a\<rfloor>" by simp
    then have "ilog2 a + 1 = bitlen \<lfloor>a\<rfloor>" by (simp only: il)
    with bitlen_pow_bounds[OF n] f show ?thesis unfolding il by (simp only:) linarith
  next
    case False
    let ?t = "\<lfloor>1 / a\<rfloor>" and ?b = "bitlen \<lfloor>1 / a\<rfloor>"
    from False assms have "1 \<le> 1 / a" by (simp add: pos_le_divide_eq)
    then have t: "0 < ?t" by simp
    have fl: "of_int ?t \<le> 1 / a" "1 / a < of_int ?t + 1" by linarith+
    note bb = bitlen_pow_bounds[OF t]
    have lo: "(2::rat) powi (?b - 1) \<le> 1 / a" using bb(1) fl(1) by linarith
    have hi: "1 / a < (2::rat) powi ?b" using bb(2) fl(2) by linarith
    have m1: "(2::rat) powi (1 - ?b) = 1 / 2 powi (?b - 1)"
      using power_int_minus_divide[of "2::rat" "?b - 1"] by simp
    have m2: "(2::rat) powi (- ?b) = 1 / 2 powi ?b"
      by (rule power_int_minus_divide)
    have le1: "a \<le> (2::rat) powi (1 - ?b)"
    proof -
      have "a * 2 powi (?b - 1) \<le> a * (1 / a)"
        using lo assms by (intro mult_left_mono) simp_all
      then have "a * 2 powi (?b - 1) \<le> 1" using assms by simp
      then show ?thesis unfolding m1 by (simp add: pos_le_divide_eq)
    qed
    have gt: "(2::rat) powi (- ?b) < a"
    proof -
      have "a * (1 / a) < a * 2 powi ?b"
        using hi assms by (intro mult_strict_left_mono) simp_all
      then have "1 < a * 2 powi ?b" using assms by simp
      then show ?thesis unfolding m2 by (simp add: pos_divide_less_eq)
    qed
    have il: "ilog2 a = (if 2 powi (1 - ?b) \<le> a then 1 - ?b else - ?b)"
      using False by (simp add: ilog2_def Let_def)
    show ?thesis
    proof (cases "2 powi (1 - ?b) \<le> a")
      case True
      have "(2::rat) powi (1 - ?b) < 2 powi (1 - ?b + 1)" by (rule pow2_strict_mono) simp
      with True le1 show ?thesis by (simp add: il)
    next
      case False
      have "- ?b + 1 = 1 - ?b" by simp
      with False gt show ?thesis by (simp add: il not_le)
    qed
  qed
  then show "2 powi (ilog2 a) \<le> a" and "a < 2 powi (ilog2 a + 1)" by simp_all
qed

lemma ilog2_unique:
  assumes "2 powi e \<le> a" "a < 2 powi (e + 1)"
  shows "ilog2 a = e"
proof -
  have a: "0 < a" using assms(1) pow2_pos[of e] by linarith
  note b = ilog2_bounds[OF a]
  have "\<not> ilog2 a < e"
  proof
    assume "ilog2 a < e"
    then have "ilog2 a + 1 \<le> e" by simp
    then have "(2::rat) powi (ilog2 a + 1) \<le> 2 powi e" by (rule pow2_mono)
    with b(2) assms(1) show False by linarith
  qed
  moreover have "\<not> e < ilog2 a"
  proof
    assume "e < ilog2 a"
    then have "e + 1 \<le> ilog2 a" by simp
    then have "(2::rat) powi (e + 1) \<le> 2 powi ilog2 a" by (rule pow2_mono)
    with b(1) assms(2) show False by linarith
  qed
  ultimately show ?thesis by linarith
qed

subsection \<open>The nearest integer\<close>

lemma rne_cases:
  "rne r = \<lfloor>r\<rfloor> \<or> rne r = \<lfloor>r\<rfloor> + 1"
  by (simp add: rne_def Let_def)

lemma rne_of_int [simp]: "rne (of_int n) = n"
  by (simp add: rne_def Let_def)

lemma rne_le: "r \<le> of_int n \<Longrightarrow> rne r \<le> n"
proof -
  assume h: "r \<le> of_int n"
  show ?thesis
  proof (cases "r = of_int n")
    case True then show ?thesis by simp
  next
    case False
    with h have "r < of_int n" by simp
    then have "\<lfloor>r\<rfloor> < n" by (simp add: floor_less_iff)
    with rne_cases[of r] show ?thesis by auto
  qed
qed

lemma rne_ge: "of_int n \<le> r \<Longrightarrow> n \<le> rne r"
proof -
  assume "of_int n \<le> r"
  then have "n \<le> \<lfloor>r\<rfloor>" by (simp add: le_floor_iff)
  with rne_cases[of r] show ?thesis by auto
qed

lemma rne_err: "\<bar>of_int (rne r) - r\<bar> \<le> 1 / 2"
proof -
  have "of_int \<lfloor>r\<rfloor> \<le> r" "r < of_int \<lfloor>r\<rfloor> + 1" by linarith+
  then show ?thesis
    by (auto simp add: rne_def Let_def abs_le_iff)
qed

lemma rne_nearest: "\<bar>of_int (rne s) - s\<bar> \<le> \<bar>of_int n - s\<bar>"
proof -
  let ?f = "\<lfloor>s\<rfloor>"
  have f: "of_int ?f \<le> s" "s < of_int ?f + 1" by linarith+
  consider "n \<le> ?f" | "?f + 1 \<le> n" by linarith
  then have far: "s - of_int ?f \<le> \<bar>of_int n - s\<bar> \<or> of_int ?f + 1 - s \<le> \<bar>of_int n - s\<bar>"
  proof cases
    case 1
    then have "(of_int n :: rat) \<le> of_int ?f" by simp
    with f show ?thesis by linarith
  next
    case 2
    then have "(of_int (?f + 1) :: rat) \<le> of_int n" by (simp only: of_int_le_iff)
    then have "(of_int ?f :: rat) + 1 \<le> of_int n" by simp
    with f show ?thesis by linarith
  qed
  show ?thesis
  proof (cases "s - of_int ?f < 1 / 2")
    case True
    then have "rne s = ?f" by (simp add: rne_def Let_def)
    with far True f show ?thesis by (simp only:) linarith
  next
    case False
    show ?thesis
    proof (cases "1 / 2 < s - of_int ?f")
      case True
      then have "rne s = ?f + 1" using False by (simp add: rne_def Let_def)
      then have "(of_int (rne s) :: rat) = of_int ?f + 1" by simp
      with far True f show ?thesis by (simp only:) linarith
    next
      case F2: False
      with False have h: "s - of_int ?f = 1 / 2" by linarith
      from rne_cases[of s] have "(of_int (rne s) :: rat) = of_int ?f \<or> (of_int (rne s) :: rat) = of_int ?f + 1"
        by auto
      with far h show ?thesis by (elim disjE; linarith)
    qed
  qed
qed

subsection \<open>Rounding a magnitude\<close>

lemma ulp_exp_cases:
  "ulp_exp a = ilog2 a - 52 \<and> - 1074 \<le> ilog2 a - 52 \<or> ulp_exp a = - 1074 \<and> ilog2 a - 52 < - 1074"
  by (auto simp add: ulp_exp_def max_def)

lemma ulp_exp_ge: "- 1074 \<le> ulp_exp a"
  by (simp add: ulp_exp_def)

lemma round_mag_nonneg: "0 \<le> a \<Longrightarrow> 0 \<le> round_mag a"
proof -
  assume "0 \<le> a"
  then have "(of_int 0::rat) \<le> a / 2 powi ulp_exp a" by simp
  then have "0 \<le> rne (a / 2 powi ulp_exp a)" by (rule rne_ge)
  then show ?thesis by (simp add: round_mag_def)
qed

lemma round_mag_le_multiple:
  assumes "a \<le> of_int N * 2 powi ulp_exp a"
  shows "round_mag a \<le> of_int N * 2 powi ulp_exp a"
proof -
  have "a / 2 powi ulp_exp a \<le> of_int N"
    using assms by (simp add: pos_divide_le_eq)
  then have "rne (a / 2 powi ulp_exp a) \<le> N" by (rule rne_le)
  then have "(of_int (rne (a / 2 powi ulp_exp a))::rat) \<le> of_int N" by simp
  then show ?thesis unfolding round_mag_def
    by (intro mult_right_mono) simp_all
qed

lemma round_mag_ge_multiple:
  assumes "of_int N * 2 powi ulp_exp a \<le> a"
  shows "of_int N * 2 powi ulp_exp a \<le> round_mag a"
proof -
  have "of_int N \<le> a / 2 powi ulp_exp a"
    using assms by (simp add: pos_le_divide_eq)
  then have "N \<le> rne (a / 2 powi ulp_exp a)" by (rule rne_ge)
  then have "(of_int N::rat) \<le> of_int (rne (a / 2 powi ulp_exp a))" by simp
  then show ?thesis unfolding round_mag_def
    by (intro mult_right_mono) simp_all
qed

lemma round_mag_err:
  "\<bar>round_mag a - a\<bar> \<le> 2 powi ulp_exp a / 2"
proof -
  let ?p = "(2::rat) powi ulp_exp a"
  have p: "0 < ?p" by simp
  have "round_mag a - a = (of_int (rne (a / ?p)) - a / ?p) * ?p"
    by (simp add: round_mag_def algebra_simps)
  then have "\<bar>round_mag a - a\<bar> = \<bar>of_int (rne (a / ?p)) - a / ?p\<bar> * ?p"
    by (simp add: abs_mult)
  also have "\<dots> \<le> (1 / 2) * ?p"
    by (intro mult_right_mono rne_err) simp
  finally show ?thesis by simp
qed

lemma double_grid:
  assumes r: "(r::rat) = of_int m * 2 powi k" and m: "0 < m" "m < 2 ^ 53" and k: "- 1074 \<le> k"
  shows "(\<exists>N. r = of_int N * 2 powi ulp_exp a) \<or> (r < 2 powi ilog2 a \<and> ulp_exp a = ilog2 a - 52)"
proof (cases "ulp_exp a \<le> k")
  case True
  then have "(2::rat) powi k = 2 powi (k - ulp_exp a) * 2 powi ulp_exp a"
    by (simp add: power_int_add [symmetric])
  also have "(2::rat) powi (k - ulp_exp a) = of_int (2 ^ nat (k - ulp_exp a))"
    using True by (intro pow2_int) simp
  finally have "r = of_int (m * 2 ^ nat (k - ulp_exp a)) * 2 powi ulp_exp a"
    unfolding r by simp
  then show ?thesis by blast
next
  case False
  with k ulp_exp_cases[of a] have p: "ulp_exp a = ilog2 a - 52" by linarith
  from False p have "k + 53 \<le> ilog2 a" by linarith
  then have le: "(2::rat) powi (k + 53) \<le> 2 powi ilog2 a" by (rule pow2_mono)
  have "(of_int m::rat) < of_int (2 ^ 53)" using m(2) by (simp only: of_int_less_iff)
  then have "(of_int m::rat) < 2 powi 53" by simp
  then have "of_int m * (2::rat) powi k < 2 powi 53 * 2 powi k"
    by (intro mult_strict_right_mono) simp_all
  also have "\<dots> = 2 powi (k + 53)" by (simp add: power_int_add)
  finally have "r < 2 powi ilog2 a" unfolding r using le by linarith
  with p show ?thesis by blast
qed

lemma round_mag_ge_pow:
  assumes a: "0 < a" and p: "ulp_exp a = ilog2 a - 52"
  shows "2 powi ilog2 a \<le> round_mag a"
proof -
  have "(2::rat) powi (52 + (ilog2 a - 52)) = 2 powi 52 * 2 powi (ilog2 a - 52)"
    by (rule power_int_add) simp
  then have eq: "(2::rat) powi ilog2 a = of_int (2 ^ 52) * 2 powi ulp_exp a" by (simp add: p)
  have "of_int (2 ^ 52) * 2 powi ulp_exp a \<le> round_mag a"
    apply (rule round_mag_ge_multiple)
    using ilog2_bounds(1)[OF a] eq by simp
  then show ?thesis using eq by simp
qed

lemma round_mag_nearest_multiple:
  "\<bar>round_mag a - a\<bar> \<le> \<bar>of_int N * 2 powi ulp_exp a - a\<bar>"
proof -
  let ?p = "(2::rat) powi ulp_exp a"
  have p: "0 < ?p" by simp
  have "round_mag a - a = (of_int (rne (a / ?p)) - a / ?p) * ?p"
    by (simp add: round_mag_def algebra_simps)
  then have 1: "\<bar>round_mag a - a\<bar> = \<bar>of_int (rne (a / ?p)) - a / ?p\<bar> * ?p"
    by (simp add: abs_mult)
  have "of_int N * ?p - a = (of_int N - a / ?p) * ?p" by (simp add: algebra_simps)
  then have 2: "\<bar>of_int N * ?p - a\<bar> = \<bar>of_int N - a / ?p\<bar> * ?p" by (simp add: abs_mult)
  have "\<bar>of_int (rne (a / ?p)) - a / ?p\<bar> * ?p \<le> \<bar>of_int N - a / ?p\<bar> * ?p"
    by (intro mult_right_mono rne_nearest) simp
  with 1 2 show ?thesis by simp
qed

lemma round_mag_nearest:
  assumes a: "0 < a" and d: "is_double r"
  shows "\<bar>round_mag a - a\<bar> \<le> \<bar>r - a\<bar>"
proof -
  from d obtain m k where r: "r = of_int m * 2 powi k" and m: "\<bar>m\<bar> < 2 ^ 53" and k: "- 1074 \<le> k"
    unfolding is_double_def by blast
  show ?thesis
  proof (cases "0 < m")
    case False
    then have "(of_int m::rat) \<le> 0" by simp
    then have "r \<le> 0" unfolding r by (simp add: mult_le_0_iff)
    then have "a \<le> \<bar>r - a\<bar>" using a by linarith
    moreover have "\<bar>round_mag a - a\<bar> \<le> \<bar>of_int 0 * 2 powi ulp_exp a - a\<bar>"
      by (rule round_mag_nearest_multiple)
    ultimately show ?thesis using a by simp
  next
    case True
    have m53: "m < 2 ^ 53" using m by linarith
    from double_grid[OF r True m53 k, of a] show ?thesis
    proof
      assume "\<exists>N. r = of_int N * 2 powi ulp_exp a"
      then obtain N where "r = of_int N * 2 powi ulp_exp a" ..
      with round_mag_nearest_multiple[of a N] show ?thesis by simp
    next
      assume h: "r < 2 powi ilog2 a \<and> ulp_exp a = ilog2 a - 52"
      have "(2::rat) powi (52 + (ilog2 a - 52)) = 2 powi 52 * 2 powi (ilog2 a - 52)"
        by (rule power_int_add) simp
      then have eq: "(2::rat) powi ilog2 a = of_int (2 ^ 52) * 2 powi ulp_exp a" using h by simp
      have "\<bar>round_mag a - a\<bar> \<le> \<bar>of_int (2 ^ 52) * 2 powi ulp_exp a - a\<bar>"
        by (rule round_mag_nearest_multiple)
      then have "\<bar>round_mag a - a\<bar> \<le> \<bar>2 powi ilog2 a - a\<bar>" by (simp only: eq)
      with ilog2_bounds(1)[OF a] h show ?thesis by linarith
    qed
  qed
qed

lemma round_mag_rel_err:
  assumes a: "0 < a"
  shows "\<bar>round_mag a - a\<bar> \<le> a * 2 powi (- 53) + 2 powi (- 1075)"
proof -
  have e: "\<bar>round_mag a - a\<bar> \<le> 2 powi ulp_exp a / 2" by (rule round_mag_err)
  from ulp_exp_cases[of a] show ?thesis
  proof
    assume h: "ulp_exp a = ilog2 a - 52 \<and> - 1074 \<le> ilog2 a - 52"
    have "(2::rat) powi (ilog2 a + - 53) = 2 powi ilog2 a * 2 powi (- 53)"
      by (rule power_int_add) simp
    moreover have "(2::rat) powi (ilog2 a - 53 + 1) = 2 powi (ilog2 a - 53) * 2 powi 1"
      by (rule power_int_add) simp
    ultimately have "(2::rat) powi ulp_exp a / 2 = 2 powi ilog2 a * 2 powi (- 53)"
      using h by simp
    also have "\<dots> \<le> a * 2 powi (- 53)"
      by (intro mult_right_mono ilog2_bounds(1)[OF a]) simp
    finally have "(2::rat) powi ulp_exp a / 2 \<le> a * 2 powi (- 53)" .
    moreover have "(0::rat) \<le> 2 powi (- 1075)" by simp
    ultimately show ?thesis using e by linarith
  next
    assume h: "ulp_exp a = - 1074 \<and> ilog2 a - 52 < - 1074"
    have "(2::rat) powi (- 1075 + 1) = 2 powi (- 1075) * 2 powi 1"
      by (rule power_int_add) simp
    then have "(2::rat) powi ulp_exp a / 2 = 2 powi (- 1075)" using h by simp
    moreover have "0 \<le> a * 2 powi (- 53)" using a by simp
    ultimately show ?thesis using e by linarith
  qed
qed

lemma round_mag_overflow_iff:
  assumes a: "0 < a"
  shows "2 ^ 1024 \<le> round_mag a \<longleftrightarrow>
    1023 < ilog2 a \<or> (ilog2 a = 1023 \<and> 2 ^ 53 \<le> rne (a / 2 powi ulp_exp a))"
proof -
  let ?e = "ilog2 a" and ?p = "ulp_exp a"
  let ?m = "rne (a / 2 powi ?p)"
  have two1024: "(2::rat) ^ 1024 = 2 powi 1024" by simp
  consider "1023 < ?e" | "?e = 1023" | "?e < 1023" by linarith
  then show ?thesis
  proof cases
    case 1
    then have p: "?p = ?e - 52" by (simp add: ulp_exp_def)
    have "(2::rat) powi 1024 \<le> 2 powi ?e" by (rule pow2_mono) (use 1 in simp)
    also have "\<dots> \<le> round_mag a" by (rule round_mag_ge_pow[OF a p])
    finally show ?thesis using 1 by (simp only: two1024) simp
  next
    case 2
    then have p: "?p = 971" by (simp add: ulp_exp_def)
    have r: "round_mag a = of_int ?m * 2 powi 971" by (simp only: round_mag_def p)
    have s: "(2::rat) powi (53 + 971) = 2 powi 53 * 2 powi 971" by (rule power_int_add) simp
    have "2 powi 1024 \<le> round_mag a \<longleftrightarrow> (2::rat) powi 53 * 2 powi 971 \<le> of_int ?m * 2 powi 971"
      using s by (simp only: r) simp
    also have "\<dots> \<longleftrightarrow> (2::rat) powi 53 \<le> of_int ?m"
      by (rule mult_le_cancel_right_pos) simp
    also have "\<dots> \<longleftrightarrow> (of_int (2 ^ 53)::rat) \<le> of_int ?m" by simp
    also have "\<dots> \<longleftrightarrow> 2 ^ 53 \<le> ?m" by (simp only: of_int_le_iff)
    finally show ?thesis using 2 by (simp only: two1024 p) simp
  next
    case 3
    have pl: "?p \<le> 1023" using 3 by (simp add: ulp_exp_def)
    have "(2::rat) powi (1023 - ?p + ?p) = 2 powi (1023 - ?p) * 2 powi ?p"
      by (rule power_int_add) simp
    moreover have "(2::rat) powi (1023 - ?p) = of_int (2 ^ nat (1023 - ?p))"
      by (rule pow2_int) (use pl in simp)
    ultimately have g: "(2::rat) powi 1023 = of_int (2 ^ nat (1023 - ?p)) * 2 powi ?p" by simp
    have "a < 2 powi (?e + 1)" by (rule ilog2_bounds(2)[OF a])
    also have "\<dots> \<le> 2 powi 1023" by (rule pow2_mono) (use 3 in simp)
    finally have "a \<le> of_int (2 ^ nat (1023 - ?p)) * 2 powi ?p" using g by simp
    then have "round_mag a \<le> of_int (2 ^ nat (1023 - ?p)) * 2 powi ?p"
      by (rule round_mag_le_multiple)
    then have "round_mag a \<le> 2 powi 1023" using g by simp
    moreover have "(2::rat) powi 1023 < 2 powi 1024" by (rule pow2_strict_mono) simp
    ultimately have "\<not> 2 powi 1024 \<le> round_mag a" by linarith
    then show ?thesis using 3 by (simp only: two1024) simp
  qed
qed

lemma round_mag_is_double:
  assumes a: "0 < a" and b: "round_mag a < 2 ^ 1024"
  shows "is_double (round_mag a)"
proof -
  let ?p = "ulp_exp a" and ?e = "ilog2 a"
  let ?m = "rne (a / 2 powi ?p)"
  have r: "round_mag a = of_int ?m * 2 powi ?p" by (simp add: round_mag_def)
  have m0: "0 \<le> ?m" by (rule rne_ge) (use a in simp)
  have ab: "\<bar>round_mag a\<bar> < 2 ^ 1024" using b round_mag_nonneg[of a] a by simp
  have pe: "?e + 1 - ?p \<le> 53" using ulp_exp_cases[of a] by linarith
  have "a / 2 powi ?p \<le> of_int (2 ^ 53)"
  proof -
    have "a < 2 powi (?e + 1)" by (rule ilog2_bounds(2)[OF a])
    also have "\<dots> \<le> 2 powi (53 + ?p)" by (rule pow2_mono) (use pe in simp)
    also have "\<dots> = 2 powi 53 * 2 powi ?p" by (rule power_int_add) simp
    finally have "a / 2 powi ?p < 2 powi 53" by (simp add: pos_divide_less_eq)
    then show ?thesis by simp
  qed
  then have m53: "?m \<le> 2 ^ 53" by (rule rne_le)
  show ?thesis
  proof (cases "?m = 2 ^ 53")
    case False
    with m0 m53 have "\<bar>?m\<bar> < 2 ^ 53" by simp
    with r ulp_exp_ge[of a] ab show ?thesis unfolding is_double_def by blast
  next
    case True
    have "(2::rat) powi (?p + 1) = 2 powi ?p * 2 powi 1" by (rule power_int_add) simp
    then have "round_mag a = of_int (2 ^ 52) * 2 powi (?p + 1)" by (simp add: r True)
    moreover have "\<bar>2 ^ 52 :: int\<bar> < 2 ^ 53" by simp
    moreover have "- 1074 \<le> ?p + 1" using ulp_exp_ge[of a] by simp
    ultimately show ?thesis using ab unfolding is_double_def by blast
  qed
qed

subsection \<open>Rounding to a Number\<close>

text \<open>
  Rounding never crosses a representable value (\<open>fl_le\<close>, \<open>fl_ge\<close>), leaves the
  representable values alone (\<open>fl_exact\<close>), yields only representable values
  (\<open>fl_is_double\<close>), none of which is nearer to the exact result (\<open>fl_nearest\<close>), and errs
  by at most half a unit in the last place (\<open>fl_err_pos\<close>).
\<close>

lemma fl_not_NaN [simp]: "fl q \<noteq> NaN"
  by (simp add: fl_def Let_def)

lemma fl_0 [simp]: "fl 0 = Fin 0"
  by (simp add: fl_def)

lemma fl_neg: "fl (- q) = fneg (fl q)"
  by (simp add: fl_def Let_def)

lemma fl_pos_cases:
  assumes "0 < q"
  shows "fl q = (if 2 ^ 1024 \<le> round_mag q then PInf else Fin (round_mag q))"
  using assms by (simp add: fl_def Let_def)

lemma is_double_neg: "is_double (- r) = is_double r"
proof -
  have "is_double (- r)" if "is_double r" for r
  proof -
    from that obtain m k where r: "r = of_int m * 2 powi k" and m: "\<bar>m\<bar> < 2 ^ 53" and k: "- 1074 \<le> k"
      and b: "\<bar>r\<bar> < 2 ^ 1024" unfolding is_double_def by blast
    have "- r = of_int (- m) * 2 powi k" "\<bar>- m\<bar> < 2 ^ 53" using r m by simp_all
    with k b show ?thesis unfolding is_double_def by (metis abs_minus_cancel)
  qed
  from this[of r] this[of "- r"] show ?thesis by auto
qed

lemma is_double_0 [simp]: "is_double 0"
  unfolding is_double_def by (auto intro!: exI[of _ 0])

lemma is_double_pow2: "- 1074 \<le> k \<Longrightarrow> k \<le> 1023 \<Longrightarrow> is_double (2 powi k)"
proof -
  assume k: "- 1074 \<le> k" "k \<le> 1023"
  have "(2::rat) powi k < 2 powi 1024" by (rule pow2_strict_mono) (use k in simp)
  then have "\<bar>(2::rat) powi k\<bar> < 2 ^ 1024" by simp
  moreover have "(2::rat) powi k = of_int 1 * 2 powi k \<and> \<bar>1::int\<bar> < 2 ^ 53 \<and> - 1074 \<le> k"
    using k by simp
  ultimately show ?thesis unfolding is_double_def by blast
qed

lemma jsle_fneg: "jsle (fneg x) (fneg y) = jsle y x"
  by (cases x; cases y) simp_all

lemma jsge_Fin_cases:
  "jsle (Fin r) x \<longleftrightarrow> x = PInf \<or> (\<exists>t. x = Fin t \<and> r \<le> t)"
  by (cases x) simp_all

lemma fl_pos_nonneg:
  assumes "0 < q"
  shows "fl q = PInf \<or> (\<exists>t. fl q = Fin t \<and> 0 \<le> t)"
  using assms round_mag_nonneg[of q] by (simp add: fl_pos_cases)

lemma fl_le_pos:
  assumes d: "is_double r" and q: "0 < q" "q \<le> r"
  shows "jsle (fl q) (Fin r)"
proof -
  from d obtain m k where r: "r = of_int m * 2 powi k" and m: "\<bar>m\<bar> < 2 ^ 53" and k: "- 1074 \<le> k"
    and b: "\<bar>r\<bar> < 2 ^ 1024" unfolding is_double_def by blast
  have rpos: "0 < r" using q by linarith
  have mpos: "0 < m"
  proof (rule ccontr)
    assume "\<not> 0 < m"
    then have "(of_int m::rat) \<le> 0" by simp
    then have "of_int m * (2::rat) powi k \<le> 0" by (simp add: mult_le_0_iff)
    with rpos r show False by simp
  qed
  have "2 powi ilog2 q \<le> r" using ilog2_bounds(1)[OF q(1)] q(2) by linarith
  have ge: "2 powi ilog2 q \<le> r" using ilog2_bounds(1)[OF q(1)] q(2) by linarith
  have m53: "m < 2 ^ 53" using m by linarith
  from double_grid[OF r mpos m53 k, of q] ge
  have "\<exists>N. r = of_int N * 2 powi ulp_exp q" by auto
  then obtain N where N: "r = of_int N * 2 powi ulp_exp q" ..
  have "round_mag q \<le> of_int N * 2 powi ulp_exp q"
    by (rule round_mag_le_multiple) (use N q in simp)
  then have le: "round_mag q \<le> r" using N by simp
  with b rpos have "\<not> 2 ^ 1024 \<le> round_mag q" by simp
  then show ?thesis using le by (simp add: fl_pos_cases[OF q(1)])
qed

lemma fl_ge_pos:
  assumes d: "is_double r" and q: "0 < r" "r \<le> q"
  shows "jsle (Fin r) (fl q)"
proof -
  from d obtain m k where r: "r = of_int m * 2 powi k" and m: "\<bar>m\<bar> < 2 ^ 53" and k: "- 1074 \<le> k"
    unfolding is_double_def by blast
  have qpos: "0 < q" using q by linarith
  have mpos: "0 < m"
  proof (rule ccontr)
    assume "\<not> 0 < m"
    then have "(of_int m::rat) \<le> 0" by simp
    then have "of_int m * (2::rat) powi k \<le> 0" by (simp add: mult_le_0_iff)
    with q(1) r show False by simp
  qed
  have m53: "m < 2 ^ 53" using m by linarith
  have "r \<le> round_mag q"
    using double_grid[OF r mpos m53 k, of q]
  proof
    assume "\<exists>N. r = of_int N * 2 powi ulp_exp q"
    then obtain N where N: "r = of_int N * 2 powi ulp_exp q" ..
    have "of_int N * 2 powi ulp_exp q \<le> round_mag q"
      by (rule round_mag_ge_multiple) (use N q in simp)
    then show ?thesis using N by simp
  next
    assume "r < 2 powi ilog2 q \<and> ulp_exp q = ilog2 q - 52"
    then show ?thesis using round_mag_ge_pow[OF qpos] by auto
  qed
  then show ?thesis by (simp add: fl_pos_cases[OF qpos])
qed

lemma fl_le:
  assumes d: "is_double r" and q: "q \<le> r"
  shows "jsle (fl q) (Fin r)"
proof -
  consider "q = 0" | "0 < q" | "q < 0" by linarith
  then show ?thesis
  proof cases
    case 1
    with q show ?thesis by simp
  next
    case 2
    then show ?thesis using fl_le_pos[OF d] q by simp
  next
    case 3
    then have nq: "0 < - q" by simp
    have eq: "fl q = fneg (fl (- q))" using fl_neg[of "- q"] by simp
    show ?thesis
    proof (cases "0 \<le> r")
      case True
      with fl_pos_nonneg[OF nq] show ?thesis by (auto simp add: eq)
    next
      case False
      then have "0 < - r" "- r \<le> - q" using q by simp_all
      with is_double_neg[of r] d have "jsle (Fin (- r)) (fl (- q))"
        by (intro fl_ge_pos) simp_all
      then show ?thesis by (auto simp add: eq jsge_Fin_cases)
    qed
  qed
qed

lemma fl_ge:
  assumes d: "is_double r" and q: "r \<le> q"
  shows "jsle (Fin r) (fl q)"
proof -
  have "jsle (fl (- q)) (Fin (- r))"
    by (rule fl_le) (use d q is_double_neg[of r] in simp_all)
  then have "jsle (fneg (fl q)) (fneg (Fin r))" by (simp add: fl_neg)
  then show ?thesis by (simp only: jsle_fneg)
qed

lemma fl_bounded:
  assumes d: "is_double M" and q: "\<bar>q\<bar> \<le> M"
  shows "\<exists>t. fl q = Fin t \<and> \<bar>t\<bar> \<le> M"
proof -
  have 1: "jsle (fl q) (Fin M)" by (rule fl_le[OF d]) (use q in linarith)
  have dn: "is_double (- M)" using d by (simp only: is_double_neg)
  have "- M \<le> q" using q by linarith
  with dn have 2: "jsle (Fin (- M)) (fl q)" by (rule fl_ge)
  from 1 2 show ?thesis
    by (cases "fl q") (auto simp add: abs_le_iff)
qed

lemma fl_exact: "is_double r \<Longrightarrow> fl r = Fin r"
proof -
  assume d: "is_double r"
  have 1: "jsle (fl r) (Fin r)" by (rule fl_le[OF d]) simp
  have 2: "jsle (Fin r) (fl r)" by (rule fl_ge[OF d]) simp
  from 1 2 show ?thesis by (cases "fl r") auto
qed

lemma fl_is_double:
  assumes "fl q = Fin t"
  shows "is_double t"
proof -
  consider "q = 0" | "0 < q" | "q < 0" by linarith
  then show ?thesis
  proof cases
    case 1
    with assms show ?thesis by simp
  next
    case 2
    with assms have "t = round_mag q" "round_mag q < 2 ^ 1024"
      by (simp_all add: fl_pos_cases split: if_splits)
    with round_mag_is_double[OF 2] show ?thesis by simp
  next
    case 3
    then have p: "0 < - q" by simp
    from assms have "fl (- q) = Fin (- t)" by (simp add: fl_neg)
    with p have "- t = round_mag (- q)" "round_mag (- q) < 2 ^ 1024"
      by (simp_all add: fl_pos_cases split: if_splits)
    with round_mag_is_double[OF p] have "is_double (- t)" by simp
    then show ?thesis by (simp only: is_double_neg)
  qed
qed

lemma is_binary64_iff: "is_binary64 (Fin q) \<longleftrightarrow> is_double q"
proof
  assume "is_binary64 (Fin q)"
  then have "fl q = Fin q" by simp
  then show "is_double q" by (rule fl_is_double)
next
  assume "is_double q"
  then show "is_binary64 (Fin q)" by (simp add: fl_exact)
qed

lemma fl_nearest:
  assumes t: "fl q = Fin t" and d: "is_double r"
  shows "\<bar>t - q\<bar> \<le> \<bar>r - q\<bar>"
proof -
  consider "q = 0" | "0 < q" | "q < 0" by linarith
  then show ?thesis
  proof cases
    case 1
    with t show ?thesis by simp
  next
    case 2
    with t have "t = round_mag q" by (simp add: fl_pos_cases split: if_splits)
    with round_mag_nearest[OF 2 d] show ?thesis by simp
  next
    case 3
    then have p: "0 < - q" by simp
    from t have "fl (- q) = Fin (- t)" by (simp add: fl_neg)
    with p have e: "- t = round_mag (- q)" by (simp add: fl_pos_cases split: if_splits)
    have "is_double (- r)" using d by (simp only: is_double_neg)
    from round_mag_nearest[OF p this] have "\<bar>- t - - q\<bar> \<le> \<bar>- r - - q\<bar>" by (simp only: e)
    then show ?thesis by (simp add: abs_minus_commute)
  qed
qed

lemma fl_Fin_bound:
  assumes "fl q = Fin t"
  shows "\<bar>t\<bar> < 2 ^ 1024"
proof -
  consider "q = 0" | "0 < q" | "q < 0" by linarith
  then show ?thesis
  proof cases
    case 1
    with assms show ?thesis by simp
  next
    case 2
    with assms round_mag_nonneg[of q] show ?thesis
      by (simp add: fl_pos_cases split: if_splits)
  next
    case 3
    then have p: "0 < - q" by simp
    from assms have "fl (- q) = Fin (- t)" by (simp add: fl_neg)
    with p round_mag_nonneg[of "- q"] show ?thesis
      by (simp add: fl_pos_cases split: if_splits)
  qed
qed

lemma fl_overflow:
  assumes "2 ^ 1024 \<le> q"
  shows "fl q = PInf"
proof -
  have q: "0 < q" using assms by (rule less_le_trans[rotated]) simp
  have "(2::rat) powi 1024 \<le> q" using assms by simp
  also have "q < 2 powi (ilog2 q + 1)" by (rule ilog2_bounds(2)[OF q])
  finally have lt: "(2::rat) powi 1024 < 2 powi (ilog2 q + 1)" .
  have "1023 < ilog2 q"
  proof (rule ccontr)
    assume "\<not> 1023 < ilog2 q"
    then have "ilog2 q + 1 \<le> 1024" by simp
    then have "(2::rat) powi (ilog2 q + 1) \<le> 2 powi 1024" by (rule pow2_mono)
    with lt show False by simp
  qed
  then show ?thesis using round_mag_overflow_iff[OF q] by (simp add: fl_pos_cases[OF q])
qed

lemma fl_nonneg_cases:
  assumes "0 \<le> x"
  shows "fl x = PInf \<or> (\<exists>t. fl x = Fin t \<and> 0 \<le> t)"
  using fl_ge[OF is_double_0 assms] by (simp add: jsge_Fin_cases)

lemma fl_err_pos:
  assumes q: "0 \<le> q" and t: "fl q = Fin t"
  shows "\<bar>t - q\<bar> \<le> q * 2 powi (- 53) + 2 powi (- 1075)"
proof (cases "q = 0")
  case True
  with t show ?thesis by simp
next
  case False
  with q have p: "0 < q" by simp
  from t have "t = round_mag q" by (simp add: fl_pos_cases[OF p] split: if_splits)
  then show ?thesis using round_mag_rel_err[OF p] by simp
qed

lemma fl_err_coarse:
  assumes x: "0 \<le> x" and t: "fl x = Fin t" and eta: "eta = 2 powi (- 1075)"
  shows "x * (999 / 1000) - eta \<le> t" and "t \<le> x * (1001 / 1000) + eta"
proof -
  have u: "(2::rat) powi (- 53) \<le> 1 / 1000" by simp
  have "x * 2 powi (- 53) \<le> x * (1 / 1000)" using u x by (rule mult_left_mono)
  moreover have "\<bar>t - x\<bar> \<le> x * 2 powi (- 53) + eta"
    unfolding eta by (rule fl_err_pos[OF x t])
  ultimately have "\<bar>t - x\<bar> \<le> x * (1 / 1000) + eta" by linarith
  then show "x * (999 / 1000) - eta \<le> t" and "t \<le> x * (1001 / 1000) + eta"
    by (simp_all add: abs_le_iff algebra_simps)
qed

lemma fl_err_abs:
  assumes "fl z = Fin t"
  shows "\<bar>t - z\<bar> \<le> \<bar>z\<bar> * 2 powi (- 53) + 2 powi (- 1075)"
proof (cases "0 \<le> z")
  case True
  with fl_err_pos[OF True assms] show ?thesis by simp
next
  case False
  then have n: "0 \<le> - z" by simp
  from assms have "fl (- z) = Fin (- t)" by (simp add: fl_neg)
  from fl_err_pos[OF n this] have "\<bar>- t - - z\<bar> \<le> - z * 2 powi (- 53) + 2 powi (- 1075)" .
  moreover have "\<bar>- t - - z\<bar> = \<bar>t - z\<bar>" by (simp add: abs_minus_commute)
  moreover have "\<bar>z\<bar> = - z" using False by simp
  ultimately show ?thesis by (simp only:)
qed

lemma fl_close:
  assumes z: "\<bar>z\<bar> \<le> 2 powi k" and k: "- 1022 \<le> k" "k \<le> 1023"
  shows "\<exists>t. fl z = Fin t \<and> \<bar>t\<bar> \<le> 2 powi k \<and> \<bar>t - z\<bar> \<le> 2 powi (k - 52)"
proof -
  have d: "is_double (2 powi k)" by (rule is_double_pow2) (use k in simp_all)
  from fl_bounded[OF d z] obtain t where t: "fl z = Fin t" "\<bar>t\<bar> \<le> 2 powi k" by blast
  have "\<bar>z\<bar> * 2 powi (- 53) \<le> 2 powi k * 2 powi (- 53)"
    using z by (intro mult_right_mono) simp_all
  also have "\<dots> = 2 powi (k + - 53)" by (rule power_int_add [symmetric]) simp
  finally have 1: "\<bar>z\<bar> * 2 powi (- 53) \<le> 2 powi (k - 53)" by simp
  have 2: "(2::rat) powi (- 1075) \<le> 2 powi (k - 53)" by (rule pow2_mono) (use k in simp)
  have "(2::rat) powi (k - 53 + 1) = 2 powi (k - 53) * 2 powi 1" by (rule power_int_add) simp
  then have 3: "(2::rat) powi (k - 52) = 2 powi (k - 53) + 2 powi (k - 53)" by simp
  from fl_err_abs[OF t(1)] 1 2 3 have "\<bar>t - z\<bar> \<le> 2 powi (k - 52)" by linarith
  with t show ?thesis by blast
qed

subsection \<open>Evaluation on numerals\<close>

lemma bitlen_numeral_simps:
  "bitlen 1 = 1"
  "bitlen (numeral num.One) = 1"
  "bitlen (numeral (num.Bit0 n)) = bitlen (numeral n) + 1"
  "bitlen (numeral (num.Bit1 n)) = bitlen (numeral n) + 1"
proof -
  show "bitlen 1 = 1" by (subst compute_bitlen) simp
  then show "bitlen (numeral num.One) = 1" by simp
  show "bitlen (numeral (num.Bit0 n)) = bitlen (numeral n) + 1"
    by (subst compute_bitlen) simp
  show "bitlen (numeral (num.Bit1 n)) = bitlen (numeral n) + 1"
    by (subst compute_bitlen) simp
qed

lemma floor_rat_numeral_simps:
  "\<lfloor>numeral a / numeral b :: rat\<rfloor> = numeral a div numeral b"
  "\<lfloor>1 / numeral b :: rat\<rfloor> = 1 div numeral b"
  "\<lfloor>- (numeral a / numeral b) :: rat\<rfloor> = - numeral a div numeral b"
  "\<lfloor>- (1 / numeral b) :: rat\<rfloor> = - 1 div numeral b"
proof -
  show "\<lfloor>numeral a / numeral b :: rat\<rfloor> = numeral a div numeral b"
    using floor_divide_of_int_eq[of "numeral a" "numeral b", where ?'a = rat] by simp
  show "\<lfloor>1 / numeral b :: rat\<rfloor> = 1 div numeral b"
    using floor_divide_of_int_eq[of 1 "numeral b", where ?'a = rat] by simp
  show "\<lfloor>- (numeral a / numeral b) :: rat\<rfloor> = - numeral a div numeral b"
    using floor_divide_of_int_eq[of "- numeral a" "numeral b", where ?'a = rat] by simp
  show "\<lfloor>- (1 / numeral b) :: rat\<rfloor> = - 1 div numeral b"
    using floor_divide_of_int_eq[of "- 1" "numeral b", where ?'a = rat] by simp
qed

lemma fl_code [code]:
  "fl q = (if q = 0 then Fin 0
     else let a = \<bar>q\<bar>; e = ilog2 a
       in if 1023 < e then (if 0 < q then PInf else NInf)
          else let p = max (e - 52) (- 1074); m = rne (a / 2 powi p)
            in if e = 1023 \<and> 2 ^ 53 \<le> m then (if 0 < q then PInf else NInf)
               else Fin (if 0 < q then of_int m * 2 powi p else - (of_int m * 2 powi p)))"
proof (cases "q = 0")
  case True
  then show ?thesis by simp
next
  case False
  then have a: "0 < \<bar>q\<bar>" by simp
  show ?thesis
    using False round_mag_overflow_iff[OF a]
    by (auto simp add: fl_def Let_def round_mag_def ulp_exp_def)
qed

lemma ilog2_staged: "ilog2 a = (if 1 \<le> a then bitlen \<lfloor>a\<rfloor> - 1 else ilog2_stage a (bitlen \<lfloor>1 / a\<rfloor>))"
  by (simp add: ilog2_def ilog2_stage_def Let_def)

lemma rne_staged: "rne r = rne_stage r \<lfloor>r\<rfloor>"
  by (simp add: rne_def rne_stage_def Let_def)

lemma fl_staged: "fl q = (if q = 0 then Fin 0 else fl_stage1 q (ilog2 \<bar>q\<bar>))"
  by (subst fl_code) (simp add: fl_stage1_def fl_stage2_def fl_stage3_def Let_def)

lemmas fl_eval = fl_staged fl_stage1_def fl_stage2_def fl_stage3_def ilog2_staged ilog2_stage_def
  rne_staged rne_stage_def  bitlen_numeral_simps power_int_minus floor_rat_numeral_simps

subsection \<open>Bounds through the operators\<close>

lemma lit_bounded:
  assumes "\<bar>q\<bar> \<le> 2 powi i" "- 1074 \<le> i" "i \<le> 1023"
  shows "\<exists>t. lit q = Fin t \<and> \<bar>t\<bar> \<le> 2 powi i"
  unfolding lit_def by (rule fl_bounded[OF is_double_pow2[OF assms(2,3)] assms(1)])

lemma fmul_bounded:
  assumes "\<bar>a\<bar> \<le> 2 powi i" "\<bar>b\<bar> \<le> 2 powi j" "- 1074 \<le> i + j" "i + j \<le> 1023"
  shows "\<exists>t. fmul (Fin a) (Fin b) = Fin t \<and> \<bar>t\<bar> \<le> 2 powi (i + j)"
proof -
  have "\<bar>a * b\<bar> = \<bar>a\<bar> * \<bar>b\<bar>" by (rule abs_mult)
  also have "\<dots> \<le> 2 powi i * 2 powi j"
    using assms(1,2) by (intro mult_mono) simp_all
  also have "\<dots> = 2 powi (i + j)" by (simp add: power_int_add)
  finally have "\<bar>a * b\<bar> \<le> 2 powi (i + j)" .
  from fl_bounded[OF is_double_pow2[OF assms(3,4)] this] show ?thesis by simp
qed

lemma fadd_bounded:
  assumes "\<bar>a\<bar> \<le> 2 powi i" "\<bar>b\<bar> \<le> 2 powi i" "- 1074 \<le> i + 1" "i + 1 \<le> 1023"
  shows "\<exists>t. fadd (Fin a) (Fin b) = Fin t \<and> \<bar>t\<bar> \<le> 2 powi (i + 1)"
proof -
  have "\<bar>a + b\<bar> \<le> \<bar>a\<bar> + \<bar>b\<bar>" by (rule abs_triangle_ineq)
  also have "\<dots> \<le> 2 powi i + 2 powi i" using assms(1,2) by linarith
  also have "\<dots> = 2 powi (i + 1)" by (simp add: power_int_add)
  finally have "\<bar>a + b\<bar> \<le> 2 powi (i + 1)" .
  from fl_bounded[OF is_double_pow2[OF assms(3,4)] this] show ?thesis by simp
qed

lemma abs_le_pow2_mono: "\<bar>t\<bar> \<le> 2 powi i \<Longrightarrow> i \<le> j \<Longrightarrow> \<bar>t::rat\<bar> \<le> 2 powi j"
  using pow2_mono[of i j] by linarith

lemma lit_not_NaN [simp]: "lit q \<noteq> NaN"
  by (simp add: lit_def)

lemma lit_neg: "lit (- q) = fneg (lit q)"
  by (simp add: lit_def fl_neg)

lemma fneg_inf_signed: "fneg (inf_signed s) = inf_signed (- s)"
  by (simp add: inf_signed_def)

lemma fmul_fneg_left: "fmul (fneg a) b = fneg (fmul a b)"
  by (cases a; cases b) (simp_all add: fneg_inf_signed fl_neg [symmetric])

lemma fsub_fadd_fneg: "fsub a b = fadd a (fneg b)"
  by (cases a; cases b) simp_all

lemma jsle_NaN_right [simp]: "jsle x NaN = False"
  by (cases x) simp_all

lemma lit_pos_fin:
  assumes "2 powi (- 20) \<le> q" "q \<le> 2 powi 11"
  shows "\<exists>t. lit q = Fin t \<and> 0 < t \<and> t \<le> 2 powi 11"
proof -
  have d1: "is_double (2 powi 11)" by (rule is_double_pow2) simp_all
  have d2: "is_double (2 powi (- 20))" by (rule is_double_pow2) simp_all
  have p: "(0::rat) < 2 powi (- 20)" by (rule pow2_pos)
  have "0 < q" using assms(1) p by linarith
  then have "\<bar>q\<bar> \<le> 2 powi 11" using assms(2) by simp
  from fl_bounded[OF d1 this] obtain t where t: "fl q = Fin t" "\<bar>t\<bar> \<le> 2 powi 11" by blast
  from fl_ge[OF d2 assms(1)] t have "2 powi (- 20) \<le> t" by simp
  with p t show ?thesis by (auto simp add: lit_def abs_le_iff)
qed

lemma fmul_lit_PInf:
  assumes "2 powi (- 20) \<le> q" "q \<le> 2 powi 11"
  shows "fmul (lit q) PInf = PInf" and "fmul (fneg (lit q)) PInf = NInf"
  using lit_pos_fin[OF assms] by (auto simp add: inf_signed_def)

lemma fadd_lit_right:
  assumes "2 powi (- 20) \<le> q" "q \<le> 2 powi 11"
  shows "fadd NInf (lit q) = NInf" and "fadd PInf (lit q) = PInf" and "fadd NaN (lit q) = NaN"
  using lit_pos_fin[OF assms] by auto

section \<open>Facts about the program\<close>

subsection \<open>The shape of a computation\<close>

lemma computeMixDesign_None_iff:
  "computeMixDesign s2n fck k = None \<longleftrightarrow> invalid_strength (Number_js s2n fck)"
  by (simp add: computeMixDesign_def Let_def)

lemma computeMixDesign_Some:
  assumes "\<not> invalid_strength (Number_js s2n fck)"
  shows "computeMixDesign s2n fck k =
    Some \<lparr>fckMean = round_js (Some (fckMean_raw (Number_js s2n fck))) 2,
          w_c = round_js (Some (w_c_raw (Number_js s2n fck))) 3,
          water = round_js (Some (water_raw (Number_js s2n fck))) 2,
          cement = round_js (Some (cement_raw (Number_js s2n fck))) 2,
          fineAgg = round_js (Some (fineAgg_raw (Number_js s2n fck))) 2,
          coarseAgg = round_js (Some (coarseAgg_raw (Number_js s2n fck))) 2,
          checks = \<lparr>isWcOk = jsle (w_c_raw (Number_js s2n fck)) (limit_of maxWc (resolve_limits k)),
            isCementOk = jsge (cement_raw (Number_js s2n fck)) (limit_of minCement (resolve_limits k)),
            isGradeOk = jsge (Number_js s2n fck) (limit_of minGradeFck (resolve_limits k)),
            limits = resolve_limits k\<rparr>\<rparr>"
  using assms by (simp add: computeMixDesign_def Let_def)

lemma compliance_flags_on_class:
  assumes "\<not> invalid_strength (Number_js s2n fck)" "resolve_limits k = ExposureClass e"
  shows "\<exists>r. computeMixDesign s2n fck k = Some r
    \<and> limits (checks r) = ExposureClass e
    \<and> isWcOk (checks r) = jsle (w_c_raw (Number_js s2n fck)) (maxWc e)
    \<and> isCementOk (checks r) = jsge (cement_raw (Number_js s2n fck)) (minCement e)
    \<and> isGradeOk (checks r) = jsge (Number_js s2n fck) (minGradeFck e)"
  by (simp add: computeMixDesign_Some[OF assms(1)] assms(2))

lemma invalid_strength_iff:
  "invalid_strength x \<longleftrightarrow> x = NaN \<or> jsle x (Fin 0)"
  by (cases x) (auto simp add: invalid_strength_def falsy_num_def isNaN_def)

lemma valid_cases:
  assumes "\<not> invalid_strength x"
  shows "x = PInf \<or> (\<exists>q. x = Fin q \<and> 0 < q)"
  using assms by (cases x) (simp_all add: invalid_strength_iff)

lemma valid_20: "\<not> invalid_strength (Fin 20)"
  by (simp add: invalid_strength_iff)

lemma valid_30: "\<not> invalid_strength (Fin 30)"
  by (simp add: invalid_strength_iff)

lemma valid_205: "\<not> invalid_strength (Fin 205)"
  by (simp add: invalid_strength_iff)


lemma valid_PInf: "\<not> invalid_strength PInf"
  by (simp add: invalid_strength_iff)

subsection \<open>The rounding helper\<close>

lemma Math_pow10_2: "Math_pow10 2 = Fin 100"
  by (simp add: Math_pow10_def fl_eval)

lemma Math_pow10_3: "Math_pow10 3 = Fin 1000"
  by (simp add: Math_pow10_def fl_eval)

lemma round_js_NaN [simp]: "round_js (Some NaN) d = None"
  by (simp add: round_js_def isNaN_def)

lemma round_js_NInf_2: "round_js (Some NInf) 2 = Some NInf"
  by (simp add: round_js_def isNaN_def Math_pow10_2 inf_signed_def)

lemma round_js_PInf: "round_js (Some PInf) 3 = Some PInf"
  by (simp add: round_js_def isNaN_def Math_pow10_3 inf_signed_def)

lemma Math_round_half_up:
  "of_int \<lfloor>y + 1 / 2\<rfloor> - 1 / 2 \<le> (y::rat)" "y < of_int \<lfloor>y + 1 / 2\<rfloor> + 1 / 2"
  by linarith+

lemma round_js_scaled:
  assumes "fmul v (Fin (10 ^ d)) = Fin y" "Math_pow10 d = Fin (10 ^ d)"
  shows "round_js (Some v) d = Some (fl (of_int \<lfloor>y + 1 / 2\<rfloor> / 10 ^ d))"
proof -
  from assms(1) have "v \<noteq> NaN" by auto
  with assms show ?thesis by (simp add: round_js_def isNaN_def)
qed

lemma round_js_finite:
  assumes t: "\<bar>t\<bar> \<le> 2 powi 1002" and d: "Math_pow10 d = Fin (10 ^ d)" "(10::rat) ^ d \<le> 1024"
  shows "finite_field (round_js (Some (Fin t)) d)"
proof -
  have f: "\<bar>(10::rat) ^ d\<bar> \<le> 2 powi 10" using d(2) by simp
  from fmul_bounded[OF t f] obtain y where
    y: "fmul (Fin t) (Fin (10 ^ d)) = Fin y" "\<bar>y\<bar> \<le> 2 powi (1002 + 10)" by auto
  let ?n = "\<lfloor>y + 1 / 2\<rfloor>"
  have one: "(1::rat) \<le> 2 powi 1012" using pow2_mono[of 0 1012] by simp
  have "\<bar>of_int ?n :: rat\<bar> \<le> \<bar>y\<bar> + 1"
  proof -
    have "of_int ?n \<le> y + 1 / 2" "y + 1 / 2 < of_int ?n + 1" by linarith+
    then show ?thesis by (simp add: abs_le_iff) linarith
  qed
  also have "\<dots> \<le> 2 powi 1012 + 2 powi 1012" using y(2) one by simp
  also have "\<dots> = 2 powi (1012 + 1)" by (simp add: power_int_add)
  finally have n: "\<bar>of_int ?n :: rat\<bar> \<le> 2 powi 1013" by simp
  have pos: "(1::rat) \<le> 10 ^ d" by simp
  have "\<bar>of_int ?n / 10 ^ d :: rat\<bar> = \<bar>of_int ?n\<bar> / 10 ^ d" by simp
  also have "\<dots> \<le> \<bar>of_int ?n\<bar> / 1"
    by (rule divide_left_mono) (use pos in simp_all)
  finally have "\<bar>of_int ?n / 10 ^ d :: rat\<bar> \<le> 2 powi 1013" using n by simp
  from fl_bounded[OF is_double_pow2 this] obtain v where v: "fl (of_int ?n / 10 ^ d) = Fin v" by auto
  have y': "fl (t * 10 ^ d) = Fin y" using y(1) by simp
  show ?thesis
    by (simp add: round_js_def isNaN_def d(1) y' v)
qed

lemma round_js_nonneg:
  assumes W: "W = PInf \<or> (\<exists>w. W = Fin w \<and> 0 \<le> w)" and d: "Math_pow10 d = Fin (10 ^ d)"
  shows "\<exists>v. round_js (Some W) d = Some v \<and> jsle (Fin 0) v"
proof -
  have inf: "round_js (Some PInf) d = Some PInf"
    by (simp add: round_js_def isNaN_def d inf_signed_def)
  from W show ?thesis
  proof
    assume "W = PInf"
    with inf show ?thesis by simp
  next
    assume "\<exists>w. W = Fin w \<and> 0 \<le> w"
    then obtain w where w: "W = Fin w" "0 \<le> w" by blast
    then have "0 \<le> w * 10 ^ d" by simp
    from fl_nonneg_cases[OF this] show ?thesis
    proof
      assume "fl (w * 10 ^ d) = PInf"
      then show ?thesis by (simp add: round_js_def isNaN_def d w(1))
    next
      assume "\<exists>y. fl (w * 10 ^ d) = Fin y \<and> 0 \<le> y"
      then obtain y where y: "fl (w * 10 ^ d) = Fin y" "0 \<le> y" by blast
      have "0 \<le> \<lfloor>y + 1 / 2\<rfloor>" using y(2) by simp
      then have "0 \<le> rat_of_int \<lfloor>y + 1 / 2\<rfloor> / 10 ^ d" by simp
      from fl_nonneg_cases[OF this] show ?thesis
        by (auto simp add: round_js_def isNaN_def d w(1) y(1))
    qed
  qed
qed

lemma outputs_cases:
  assumes "(f, g, d) \<in> set outputs" "computeMixDesign s2n fck k = Some r"
  shows "f r = round_js (Some (g (Number_js s2n fck))) d \<and> Math_pow10 d = Fin (10 ^ d)"
proof -
  from assms(2) have v: "\<not> invalid_strength (Number_js s2n fck)"
    using computeMixDesign_None_iff[of s2n fck k] by auto
  from assms show ?thesis
    unfolding computeMixDesign_Some[OF v] outputs_def
    by (auto simp add: Math_pow10_2 Math_pow10_3)
qed

subsection \<open>The regressions\<close>

lemmas raw_defs = fckMean_raw_def w_c_raw_def water_raw_def cement_raw_def fineAgg_raw_def
  coarseAgg_raw_def

lemma raw_quadratic:
  "fckMean_raw x = quadratic (- (35 / 10000)) (13074 / 10000) (16883 / 10000) x"
  "w_c_raw x = quadratic (9 / 1000000) (- (44 / 10000)) (5617 / 10000) x"
  "water_raw x = quadratic (- (107 / 10000)) (- (941 / 10000)) (19556 / 100) x"
  "cement_raw x = quadratic (- (308 / 10000)) (47223 / 10000) (29878 / 100) x"
  "fineAgg_raw x = quadratic (- (1156 / 10000)) (10473 / 1000) (48442 / 100) x"
  "coarseAgg_raw x = quadratic (335 / 10000) (- (52723 / 10000)) (12344 / 10) x"
  by (simp_all only: raw_defs quadratic_def lit_neg fsub_fadd_fneg fmul_fneg_left)

lemma raw_PInf:
  "fckMean_raw PInf = NaN" "w_c_raw PInf = NaN" "water_raw PInf = NInf"
  "cement_raw PInf = NaN" "fineAgg_raw PInf = NaN" "coarseAgg_raw PInf = NaN"
  by (simp_all add: fckMean_raw_def w_c_raw_def water_raw_def cement_raw_def fineAgg_raw_def
      coarseAgg_raw_def fmul_lit_PInf fadd_lit_right)

lemma quadratic_finite:
  assumes a: "\<bar>a\<bar> \<le> 1" and b: "\<bar>b\<bar> \<le> 16" and c: "\<bar>c\<bar> \<le> 2048" and q: "\<bar>q\<bar> \<le> 2 powi 500"
  shows "\<exists>t. quadratic a b c (Fin q) = Fin t \<and> \<bar>t\<bar> \<le> 2 powi 1002"
proof -
  from a have "\<bar>a\<bar> \<le> 2 powi 0" by simp
  from lit_bounded[OF this] obtain a' where a': "lit a = Fin a'" "\<bar>a'\<bar> \<le> 2 powi 0" by auto
  from b have "\<bar>b\<bar> \<le> 2 powi 4" by simp
  from lit_bounded[OF this] obtain b' where b': "lit b = Fin b'" "\<bar>b'\<bar> \<le> 2 powi 4" by auto
  from c have "\<bar>c\<bar> \<le> 2 powi 11" by simp
  from lit_bounded[OF this] obtain c' where c': "lit c = Fin c'" "\<bar>c'\<bar> \<le> 2 powi 11" by auto
  from fmul_bounded[OF a'(2) q] obtain t1 where
    t1: "fmul (Fin a') (Fin q) = Fin t1" "\<bar>t1\<bar> \<le> 2 powi (0 + 500)" by auto
  from fmul_bounded[OF t1(2) q] obtain t2 where
    t2: "fmul (Fin t1) (Fin q) = Fin t2" "\<bar>t2\<bar> \<le> 2 powi (0 + 500 + 500)" by auto
  from fmul_bounded[OF b'(2) q] obtain t3 where
    t3: "fmul (Fin b') (Fin q) = Fin t3" "\<bar>t3\<bar> \<le> 2 powi (4 + 500)" by auto
  have t2': "\<bar>t2\<bar> \<le> 2 powi 1000" using t2(2) by simp
  have t3': "\<bar>t3\<bar> \<le> 2 powi 1000" by (rule abs_le_pow2_mono[OF t3(2)]) simp
  from fadd_bounded[OF t2' t3'] obtain t4 where
    t4: "fadd (Fin t2) (Fin t3) = Fin t4" "\<bar>t4\<bar> \<le> 2 powi (1000 + 1)" by auto
  have c'': "\<bar>c'\<bar> \<le> 2 powi (1000 + 1)" by (rule abs_le_pow2_mono[OF c'(2)]) simp
  from fadd_bounded[OF t4(2) c''] obtain t5 where
    t5: "fadd (Fin t4) (Fin c') = Fin t5" "\<bar>t5\<bar> \<le> 2 powi (1000 + 1 + 1)" by auto
  have "quadratic a b c (Fin q) = Fin t5"
    by (simp only: quadratic_def a' b' c' t1 t2 t3 t4 t5)
  moreover have "\<bar>t5\<bar> \<le> 2 powi 1002" using t5(2) by simp
  ultimately show ?thesis by blast
qed

lemma ten_150: "(10::rat) ^ 150 \<le> 2 powi 500"
  by simp

lemma abs_prod_le: "\<bar>x\<bar> \<le> a \<Longrightarrow> \<bar>y\<bar> \<le> b \<Longrightarrow> \<bar>x * y :: rat\<bar> \<le> a * b"
  by (simp add: abs_mult mult_mono)

lemma abs_chain2:
  "\<bar>x - y\<bar> \<le> e1 \<Longrightarrow> \<bar>y - z\<bar> \<le> e2 \<Longrightarrow> e1 + e2 \<le> e \<Longrightarrow> \<bar>x - z :: rat\<bar> \<le> e"
  by linarith

lemma abs_chain3:
  "\<bar>t - (x + y)\<bar> \<le> e0 \<Longrightarrow> \<bar>x - x'\<bar> \<le> e1 \<Longrightarrow> \<bar>y - y'\<bar> \<le> e2 \<Longrightarrow> e0 + e1 + e2 \<le> e
    \<Longrightarrow> \<bar>t - (x' + y') :: rat\<bar> \<le> e"
  by linarith

lemma quadratic_accuracy:
  assumes a: "\<bar>a\<bar> \<le> 1" and b: "\<bar>b\<bar> \<le> 16" and c: "\<bar>c\<bar> \<le> 2048" and q: "0 \<le> q" "q \<le> 1024"
  shows "\<exists>t. quadratic a b c (Fin q) = Fin t \<and> \<bar>t - (a * q * q + b * q + c)\<bar> \<le> 2 powi (- 28)"
proof -
  have qa: "\<bar>q\<bar> \<le> 1024" using q by simp
  \<comment> \<open>the three literals\<close>
  from a have "\<bar>a\<bar> \<le> 2 powi 0" by simp
  from fl_close[OF this] obtain a' where
    a': "fl a = Fin a'" "\<bar>a'\<bar> \<le> 1" "\<bar>a' - a\<bar> \<le> 1 / 2 ^ 52" by auto
  from b have "\<bar>b\<bar> \<le> 2 powi 4" by simp
  from fl_close[OF this] obtain b' where
    b': "fl b = Fin b'" "\<bar>b'\<bar> \<le> 16" "\<bar>b' - b\<bar> \<le> 1 / 2 ^ 48" by auto
  from c have "\<bar>c\<bar> \<le> 2 powi 11" by simp
  from fl_close[OF this] obtain c' where
    c': "fl c = Fin c'" "\<bar>c'\<bar> \<le> 2048" "\<bar>c' - c\<bar> \<le> 1 / 2 ^ 41" by auto
  \<comment> \<open>\<open>a * x\<close>\<close>
  have "\<bar>a' * q\<bar> \<le> 1 * 1024" by (rule abs_prod_le[OF a'(2) qa])
  then have "\<bar>a' * q\<bar> \<le> 2 powi 10" by simp
  from fl_close[OF this] obtain t1 where
    t1: "fl (a' * q) = Fin t1" "\<bar>t1\<bar> \<le> 1024" "\<bar>t1 - a' * q\<bar> \<le> 1 / 2 ^ 42" by auto
  have "\<bar>(a' - a) * q\<bar> \<le> 1 / 2 ^ 52 * 1024" by (rule abs_prod_le[OF a'(3) qa])
  then have he1: "\<bar>a' * q - a * q\<bar> \<le> 1 / 2 ^ 42" by (simp add: algebra_simps)
  have e1: "\<bar>t1 - a * q\<bar> \<le> 1 / 2 ^ 41" by (rule abs_chain2[OF t1(3) he1]) simp
  \<comment> \<open>\<open>a * x * x\<close>\<close>
  have "\<bar>t1 * q\<bar> \<le> 1024 * 1024" by (rule abs_prod_le[OF t1(2) qa])
  then have "\<bar>t1 * q\<bar> \<le> 2 powi 20" by simp
  from fl_close[OF this] obtain t2 where
    t2: "fl (t1 * q) = Fin t2" "\<bar>t2\<bar> \<le> 2 ^ 20" "\<bar>t2 - t1 * q\<bar> \<le> 1 / 2 ^ 32" by auto
  have "\<bar>(t1 - a * q) * q\<bar> \<le> 1 / 2 ^ 41 * 1024" by (rule abs_prod_le[OF e1 qa])
  then have he2: "\<bar>t1 * q - a * q * q\<bar> \<le> 1 / 2 ^ 31" by (simp add: algebra_simps)
  have e2: "\<bar>t2 - a * q * q\<bar> \<le> 1 / 2 ^ 30" by (rule abs_chain2[OF t2(3) he2]) simp
  \<comment> \<open>\<open>b * x\<close>\<close>
  have "\<bar>b' * q\<bar> \<le> 16 * 1024" by (rule abs_prod_le[OF b'(2) qa])
  then have "\<bar>b' * q\<bar> \<le> 2 powi 14" by simp
  from fl_close[OF this] obtain t3 where
    t3: "fl (b' * q) = Fin t3" "\<bar>t3\<bar> \<le> 2 ^ 14" "\<bar>t3 - b' * q\<bar> \<le> 1 / 2 ^ 38" by auto
  have "\<bar>(b' - b) * q\<bar> \<le> 1 / 2 ^ 48 * 1024" by (rule abs_prod_le[OF b'(3) qa])
  then have he3: "\<bar>b' * q - b * q\<bar> \<le> 1 / 2 ^ 38" by (simp add: algebra_simps)
  have e3: "\<bar>t3 - b * q\<bar> \<le> 1 / 2 ^ 37" by (rule abs_chain2[OF t3(3) he3]) simp
  \<comment> \<open>the two sums\<close>
  have "\<bar>t2 + t3\<bar> \<le> 2 powi 21" using t2(2) t3(2) by simp
  from fl_close[OF this] obtain t4 where
    t4: "fl (t2 + t3) = Fin t4" "\<bar>t4\<bar> \<le> 2 ^ 21" "\<bar>t4 - (t2 + t3)\<bar> \<le> 1 / 2 ^ 31" by auto
  have e4: "\<bar>t4 - (a * q * q + b * q)\<bar> \<le> 1 / 2 ^ 29" by (rule abs_chain3[OF t4(3) e2 e3]) simp
  have "\<bar>t4 + c'\<bar> \<le> 2 powi 22" using t4(2) c'(2) by simp
  from fl_close[OF this] obtain t5 where
    t5: "fl (t4 + c') = Fin t5" "\<bar>t5 - (t4 + c')\<bar> \<le> 1 / 2 ^ 30" by auto
  have e5: "\<bar>t5 - (a * q * q + b * q + c)\<bar> \<le> 1 / 2 ^ 28" by (rule abs_chain3[OF t5(2) e4 c'(3)]) simp
  have "quadratic a b c (Fin q) = Fin t5"
    by (simp only: quadratic_def lit_def a' b' c' fmul.simps fadd.simps t1 t2 t3 t4 t5)
  with e5 show ?thesis by simp
qed

lemma outputs_quadratic_fields:
  assumes "computeMixDesign s2n fck k = Some r"
  shows "fckMean r =
      round_js (Some (quadratic (- (35 / 10000)) (13074 / 10000) (16883 / 10000) (Number_js s2n fck))) 2
    \<and> w_c r =
      round_js (Some (quadratic (9 / 1000000) (- (44 / 10000)) (5617 / 10000) (Number_js s2n fck))) 3
    \<and> water r =
      round_js (Some (quadratic (- (107 / 10000)) (- (941 / 10000)) (19556 / 100) (Number_js s2n fck))) 2
    \<and> cement r =
      round_js (Some (quadratic (- (308 / 10000)) (47223 / 10000) (29878 / 100) (Number_js s2n fck))) 2
    \<and> fineAgg r =
      round_js (Some (quadratic (- (1156 / 10000)) (10473 / 1000) (48442 / 100) (Number_js s2n fck))) 2
    \<and> coarseAgg r =
      round_js (Some (quadratic (335 / 10000) (- (52723 / 10000)) (12344 / 10) (Number_js s2n fck))) 2"
proof -
  from assms have v: "\<not> invalid_strength (Number_js s2n fck)"
    using computeMixDesign_None_iff[of s2n fck k] by auto
  from assms show ?thesis
    unfolding computeMixDesign_Some[OF v] raw_quadratic by auto
qed

lemma regressions_cases:
  assumes "(f, d, a, b, c) \<in> set regressions" "computeMixDesign s2n fck k = Some r"
  shows "f r = round_js (Some (quadratic a b c (Number_js s2n fck))) d
    \<and> \<bar>a\<bar> \<le> 1 \<and> \<bar>b\<bar> \<le> 16 \<and> \<bar>c\<bar> \<le> 2048"
  using assms(1) outputs_quadratic_fields[OF assms(2)] unfolding regressions_def
  by (simp only: list.set insert_iff empty_iff prod.inject simp_thms)
    (elim disjE conjE; hypsubst; simp)

lemma w_c_literals:
  "lit (9 / 1000000) = Fin (5312662293228351 / 590295810358705651712)"
  "lit (44 / 10000) = Fin (5072854620270127 / 1152921504606846976)"
  "lit (5617 / 10000) = Fin (5059343821388015 / 9007199254740992)"
  by (simp_all add: lit_def fl_eval)

lemma is_double_71_128: "is_double (- (71 / 128))"
proof -
  have "- (71 / 128) = rat_of_int (- 71) * 2 powi (- 7)" by simp
  moreover have "\<bar>- 71 :: int\<bar> < 2 ^ 53" by simp
  moreover have "\<bar>- (71 / 128) :: rat\<bar> < 2 ^ 1024" by simp
  ultimately show ?thesis unfolding is_double_def by (intro conjI exI[of _ "- 71"] exI[of _ "- 7"]) simp_all
qed

lemma w_c_quadratic_bound:
  fixes q :: rat
  shows "- (11 / 20) \<le>
    5312662293228351 / 590295810358705651712 * (999 / 1000) * (999 / 1000) * (q * q)
    - 5072854620270127 / 1152921504606846976 * (1001 / 1000) * q"
proof -
  define al :: rat where "al = 5312662293228351 / 590295810358705651712 * (999 / 1000) * (999 / 1000)"
  define be :: rat where "be = 5072854620270127 / 1152921504606846976 * (1001 / 1000)"
  have al: "0 < al" by (simp add: al_def)
  have d: "be * be \<le> 4 * al * (11 / 20)" by (simp add: al_def be_def)
  have "0 \<le> (2 * al * q - be) * (2 * al * q - be)" by simp
  then have "0 \<le> 4 * al * (al * (q * q) - be * q) + be * be" by (simp add: algebra_simps)
  with d have "0 \<le> 4 * al * (al * (q * q) - be * q) + 4 * al * (11 / 20)" by linarith
  then have "0 \<le> 4 * al * (al * (q * q) - be * q + 11 / 20)" by (simp add: algebra_simps)
  with al have "0 \<le> al * (q * q) - be * q + 11 / 20"
    by (simp add: zero_le_mult_iff)
  then show ?thesis unfolding al_def be_def by (simp add: algebra_simps)
qed

lemma w_c_raw_pos:
  assumes q: "0 < q" "q < 2 ^ 1024"
  shows "w_c_raw (Fin q) = PInf \<or> (\<exists>w. w_c_raw (Fin q) = Fin w \<and> 2 powi (- 8) \<le> w)"
proof -
  define eta :: rat where "eta = 2 powi (- 1075)"
  define a :: rat where "a = 5312662293228351 / 590295810358705651712"
  define b :: rat where "b = 5072854620270127 / 1152921504606846976"
  define c :: rat where "c = 5059343821388015 / 9007199254740992"
  define T :: rat where "T = 2 powi 1024"
  define s :: rat where "s = 2 powi (- 51)"
  have eta0: "0 < eta" unfolding eta_def by (rule pow2_pos)
  have q': "q < T" using q(2) unfolding T_def by (simp only: power_int_numeral)
  have "(2::rat) powi (- 1075 + 1024) = 2 powi (- 1075) * 2 powi 1024"
    by (rule power_int_add) simp
  moreover have "(- 1075 :: int) + 1024 = - 51" by simp
  ultimately have e1: "eta * T = s" unfolding eta_def T_def s_def by (simp only:)
  have "eta * q \<le> eta * T" by (rule mult_left_mono[OF less_imp_le[OF q'] less_imp_le[OF eta0]])
  then have "eta * q \<le> s" by (simp only: e1)
  moreover have sv: "s = 1 / 2251799813685248" by (simp add: s_def)
  ultimately have eq: "eta * q \<le> 1 / 2251799813685248" by (simp only:)
  have "eta \<le> s" unfolding eta_def s_def by (rule pow2_mono) simp
  then have e2: "eta \<le> 1 / 2251799813685248" by (simp only: sv)
  have a0: "0 < a" "a \<le> 2 powi (- 16)" by (simp_all add: a_def)
  have b0: "0 < b" "b \<le> 2 powi (- 7)" by (simp_all add: b_def)
  have qa: "\<bar>q\<bar> \<le> 2 powi 1024" using q(1) q' unfolding T_def by linarith
  \<comment> \<open>the first product\<close>
  have aq: "0 \<le> a * q" using a0 q by simp
  have "\<bar>a\<bar> \<le> 2 powi (- 16)" using a0 by simp
  from fmul_bounded[OF this qa] obtain t1 where t1: "fl (a * q) = Fin t1" by auto
  from fl_nonneg_cases[OF aq] t1 have t1n: "0 \<le> t1" by simp
  note t1e = fl_err_coarse(1)[OF aq t1 eta_def]
  \<comment> \<open>the subtracted product\<close>
  have bq: "0 \<le> b * q" using b0 q by simp
  have "\<bar>b\<bar> \<le> 2 powi (- 7)" using b0 by simp
  from fmul_bounded[OF this qa] obtain B where B: "fl (b * q) = Fin B" by auto
  note Be = fl_err_coarse(2)[OF bq B eta_def]
  have la: "lit (9 / 1000000) = Fin a" unfolding a_def by (rule w_c_literals(1))
  have lb: "lit (44 / 10000) = Fin b" unfolding b_def by (rule w_c_literals(2))
  have lc: "lit (5617 / 10000) = Fin c" unfolding c_def by (rule w_c_literals(3))
  have raw: "w_c_raw (Fin q) = fadd (fsub (fl (t1 * q)) (Fin B)) (Fin c)"
    by (simp only: w_c_raw_def la lb lc fmul.simps t1 B)
  have t1q: "0 \<le> t1 * q" using t1n q by simp
  from fl_nonneg_cases[OF t1q] show ?thesis
  proof
    assume "fl (t1 * q) = PInf"
    then show ?thesis by (simp add: raw)
  next
    assume "\<exists>t. fl (t1 * q) = Fin t \<and> 0 \<le> t"
    then obtain A where A: "fl (t1 * q) = Fin A" by blast
    note Ae = fl_err_coarse(1)[OF t1q A eta_def]
    have "(a * q * (999 / 1000) - eta) * q \<le> t1 * q"
      using t1e q by (intro mult_right_mono) simp_all
    then have k1: "a * (999 / 1000) * (q * q) - eta * q \<le> t1 * q"
      by (simp add: algebra_simps)
    have k2: "eta * q * (999 / 1000) \<le> eta * q" using eta0 q by simp
    have "a * (999 / 1000) * (999 / 1000) * (q * q) - eta * q * (999 / 1000) - eta \<le> A"
      using k1 Ae by (simp add: algebra_simps) 
    with k2 have Alo: "a * (999 / 1000) * (999 / 1000) * (q * q) - eta * q - eta \<le> A"
      by linarith
    have "- (11 / 20) \<le> a * (999 / 1000) * (999 / 1000) * (q * q) - b * (1001 / 1000) * q"
      unfolding a_def b_def by (rule w_c_quadratic_bound)
    with Alo Be eq e2 have "- (11 / 20) - 3 / 2251799813685248 \<le> A - B"
      by (simp add: algebra_simps)
    then have z: "- (71 / 128) \<le> A - B" by simp
    from fl_ge[OF is_double_71_128 z]
    have "fl (A - B) = PInf \<or> (\<exists>D. fl (A - B) = Fin D \<and> - (71 / 128) \<le> D)"
      by (simp add: jsge_Fin_cases)
    then show ?thesis
    proof
      assume "fl (A - B) = PInf"
      then show ?thesis by (simp add: raw A)
    next
      assume "\<exists>D. fl (A - B) = Fin D \<and> - (71 / 128) \<le> D"
      then obtain D where D: "fl (A - B) = Fin D" "- (71 / 128) \<le> D" by blast
      have "2 powi (- 8) \<le> D + c" using D(2) by (simp add: c_def)
      from fl_ge[OF is_double_pow2 this]
      have "fl (D + c) = PInf \<or> (\<exists>w. fl (D + c) = Fin w \<and> 2 powi (- 8) \<le> w)"
        by (simp add: jsge_Fin_cases)
      then show ?thesis by (simp add: raw A D(1))
    qed
  qed
qed

subsection \<open>Exposure resolution\<close>

lemma EXPOSURES_grade:
  assumes "map_of EXPOSURES k = Some e"
  shows "minGradeFck e \<noteq> NaN"
proof -
  from assms have "e \<in> snd ` set EXPOSURES" by (auto dest: map_of_SomeD intro: rev_image_eqI)
  then show ?thesis
    by (auto simp add: EXPOSURES_def mild_def moderate_def severe_def verySevere_def extreme_def)
qed

lemma resolve_limits_class_grade:
  assumes "resolve_limits k = ExposureClass e"
  shows "minGradeFck e \<noteq> NaN"
  using assms EXPOSURES_grade
  by (auto simp add: resolve_limits_def get_EXPOSURES_def mild_def split: option.splits if_splits)

lemma resolve_limits_unknown:
  assumes "k \<notin> set (map fst EXPOSURES)" "k \<notin> set Object_prototype_keys"
  shows "resolve_limits (Some k) = ExposureClass mild"
proof -
  from assms(1) have "map_of EXPOSURES k = None" by (simp add: map_of_eq_None_iff)
  with assms(2) show ?thesis
    by (simp add: resolve_limits_def get_EXPOSURES_def property_key_def)
qed

lemma resolve_limits_absent: "resolve_limits None = ExposureClass mild"
  by (simp add: resolve_limits_def get_EXPOSURES_def property_key_def EXPOSURES_def
      Object_prototype_keys_def)

lemma resolve_limits_empty: "resolve_limits (Some []) = ExposureClass mild"
  by (simp add: resolve_limits_def get_EXPOSURES_def property_key_def EXPOSURES_def
      Object_prototype_keys_def)

lemma resolve_limits_toString: "resolve_limits (Some ''toString'') = Inherited ''toString''"
  by (simp add: resolve_limits_def get_EXPOSURES_def property_key_def EXPOSURES_def
      Object_prototype_keys_def)

lemma resolve_limits_moderate: "resolve_limits (Some ''moderate'') = ExposureClass moderate"
  by (simp add: resolve_limits_def get_EXPOSURES_def property_key_def EXPOSURES_def)

lemma moderate_limits:
  "maxWc moderate = Fin (1 / 2)" "minCement moderate = Fin 300" "minGradeFck moderate = Fin 25"
  by (simp_all add: moderate_def lit_def fl_eval)

subsection \<open>Values at concrete strengths\<close>

lemmas round_eval = round_js_def isNaN_def Math_pow10_2 Math_pow10_3 lit_def fl_eval

lemma raw_20:
  "fckMean_raw (Fin 20) = Fin (3720578463407957 / 140737488355328)"
  "w_c_raw (Fin 20) = Fin (4299136204287875 / 9007199254740992)"
  "water_raw (Fin 20) = Fin (6663849704880603 / 35184372088832)"
  "cement_raw (Fin 20) = Fin (418810576089645 / 1099511627776)"
  "fineAgg_raw (Fin 20) = Fin (2848350842451395 / 4398046511104)"
  "coarseAgg_raw (Fin 20) = Fin (5024126024145699 / 4398046511104)"
  by (simp_all add: raw_defs lit_def fl_eval)

lemma rounded_20:
  "round_js (Some (Fin (3720578463407957 / 140737488355328))) 2 = Some (lit (2644 / 100))"
  "round_js (Some (Fin (4299136204287875 / 9007199254740992))) 3 = Some (lit (477 / 1000))"
  "round_js (Some (Fin (6663849704880603 / 35184372088832))) 2 = Some (lit (1894 / 10))"
  "round_js (Some (Fin (418810576089645 / 1099511627776))) 2 = Some (lit (38091 / 100))"
  "round_js (Some (Fin (2848350842451395 / 4398046511104))) 2 = Some (lit (64764 / 100))"
  "round_js (Some (Fin (5024126024145699 / 4398046511104))) 2 = Some (lit (114235 / 100))"
  by (simp_all add: round_eval)

lemma lit_2644_2643: "lit (2644 / 100) \<noteq> lit (2643 / 100)"
  by (simp add: lit_def fl_eval)




lemma fineAgg_raw_205: "fineAgg_raw (Fin 205) = Fin (- (1224144019563479 / 549755813888))"
  by (simp add: raw_defs lit_def fl_eval)

lemma fineAgg_scaled_205:
  "fmul (Fin (- (1224144019563479 / 549755813888))) (Fin (10 ^ 2)) = Fin (- (445341 / 2))"
  by (simp add: fl_eval)

lemma fineAgg_rounded_205:
  "round_js (Some (Fin (- (1224144019563479 / 549755813888)))) 2 = Some (lit (- (22267 / 10)))"
  by (simp add: round_eval)

lemma fineAgg_spec_round_205:
  "spec_round (Fin (- (1224144019563479 / 549755813888))) 2 = Some (lit (- (222671 / 100)))"
  by (simp add: spec_round_def half_away_def round_eval)

lemma lit_22267: "lit (- (22267 / 10)) \<noteq> lit (- (222671 / 100))"
  by (simp add: lit_def fl_eval)

lemma is_binary64_2_600: "is_binary64 (Fin (2 ^ 600))"
proof -
  have "is_double (2 powi 600)" by (rule is_double_pow2) simp_all
  then have "fl (2 powi 600) = Fin (2 powi 600)" by (rule fl_exact)
  then show ?thesis by simp
qed

lemma w_c_raw_2_600: "w_c_raw (Fin (2 ^ 600)) = PInf"
  by (simp add: w_c_raw_def lit_def fl_eval)

lemma raw_30:
  "w_c_raw (Fin 30) = Fin (1971675916862803 / 4503599627370496)"
  "cement_raw (Fin 30) = Fin (3630402676962885 / 8796093022208)"
  by (simp_all add: raw_defs lit_def fl_eval)

lemma mild_limits:
  "maxWc mild = Fin (2476979795053773 / 4503599627370496)"
  "minCement mild = Fin 300" "minGradeFck mild = Fin 20"
  by (simp_all add: mild_def lit_def fl_eval)

lemma scenario_3:
  "\<exists>r. computeMixDesign s2n (JNum (Fin 30)) (Some ''unknownXYZ'') = Some r
     \<and> limits (checks r) = ExposureClass mild
     \<and> maxWc mild = lit (55 / 100) \<and> minCement mild = lit 300 \<and> minGradeFck mild = lit 20"
proof -
  have v: "\<not> invalid_strength (Number_js s2n (JNum (Fin 30)))" using valid_30 by simp
  have "resolve_limits (Some ''unknownXYZ'') = ExposureClass mild"
    by (rule resolve_limits_unknown) (simp_all add: EXPOSURES_def Object_prototype_keys_def)
  then show ?thesis
    unfolding computeMixDesign_Some[OF v] by (simp add: mild_def)
qed

section \<open>The claims\<close>

subsection \<open>The first scenario\<close>

text \<open>
  C1, amended.  For \<open>fck = 20\<close> and the exposure \<open>moderate\<close> the computation succeeds and
  its rounded outputs are targetMeanStrength 26.44, waterCementRatio 0.477, waterContent
  189.4, cementContent 380.91, fineAggregate 647.64 and coarseAggregate 1142.35 (each the
  Number nearest to that decimal), with the flags waterCementRatioOk true, cementContentOk
  true and gradeOk false.
\<close>

theorem scenario_1:
  "computeMixDesign s2n (JNum (Fin 20)) (Some ''moderate'') =
     Some \<lparr>fckMean = Some (lit (2644 / 100)), w_c = Some (lit (477 / 1000)),
       water = Some (lit (1894 / 10)), cement = Some (lit (38091 / 100)),
       fineAgg = Some (lit (64764 / 100)), coarseAgg = Some (lit (114235 / 100)),
       checks = \<lparr>isWcOk = True, isCementOk = True, isGradeOk = False,
         limits = ExposureClass moderate\<rparr>\<rparr>"
proof -
  have v: "\<not> invalid_strength (Number_js s2n (JNum (Fin 20)))" using valid_20 by simp
  show ?thesis
    unfolding computeMixDesign_Some[OF v]
    by (simp add: raw_20 rounded_20 resolve_limits_moderate moderate_limits jsge_def)
qed

text \<open>
  C1 as stated fails already on its first number: the emitted targetMeanStrength is not
  26.43.
\<close>

theorem scenario_1_counterexample:
  "map_option fckMean (computeMixDesign unparsed (JNum (Fin 20)) (Some ''moderate''))
     \<noteq> Some (Some (lit (2643 / 100)))"
proof -
  have v: "\<not> invalid_strength (Number_js unparsed (JNum (Fin 20)))" using valid_20 by simp
  have "map_option fckMean (computeMixDesign unparsed (JNum (Fin 20)) (Some ''moderate''))
      = Some (round_js (Some (fckMean_raw (Fin 20))) 2)"
    by (simp only: computeMixDesign_Some[OF v] option.map mix_result.simps Number_js.simps)
  then have e: "map_option fckMean (computeMixDesign unparsed (JNum (Fin 20)) (Some ''moderate''))
      = Some (Some (lit (2644 / 100)))"
    by (simp only: raw_20 rounded_20)
  show ?thesis unfolding e using lit_2644_2643 by simp
qed

subsection \<open>Validation of the strength\<close>

text \<open>
  C2, amended.  The computation returns the failure exactly when \<open>Number(fck)\<close> is NaN
  (\<open>fck\<close> missing or not numeric) or is at most 0; for every finite \<open>fck\<close> with
  \<open>0 < fck \<le> 1e150\<close> it returns a result whose six numeric fields are all finite numbers.
\<close>

theorem strength_validation:
  "(computeMixDesign s2n fck k = None
      \<longleftrightarrow> Number_js s2n fck = NaN \<or> jsle (Number_js s2n fck) (Fin 0))
   \<and> (\<forall>q. Number_js s2n fck = Fin q \<longrightarrow> 0 < q \<longrightarrow> q \<le> 10 ^ 150 \<longrightarrow>
        (\<exists>r. computeMixDesign s2n fck k = Some r \<and> all_finite r))"
proof (intro conjI allI impI)
  show "computeMixDesign s2n fck k = None
      \<longleftrightarrow> Number_js s2n fck = NaN \<or> jsle (Number_js s2n fck) (Fin 0)"
    by (simp only: computeMixDesign_None_iff invalid_strength_iff)
next
  fix q
  assume x: "Number_js s2n fck = Fin q" and q: "0 < q" "q \<le> 10 ^ 150"
  have v: "\<not> invalid_strength (Number_js s2n fck)"
    using q by (simp add: x invalid_strength_iff)
  have qb: "\<bar>q\<bar> \<le> 2 powi 500" using q ten_150 by linarith
  have fin: "finite_field (round_js (Some (quadratic a b c (Fin q))) d)"
    if "\<bar>a\<bar> \<le> 1" "\<bar>b\<bar> \<le> 16" "\<bar>c\<bar> \<le> 2048" "Math_pow10 d = Fin (10 ^ d)" "(10::rat) ^ d \<le> 1024"
    for a b c d
  proof -
    from quadratic_finite[OF that(1-3) qb] obtain t where
      "quadratic a b c (Fin q) = Fin t" "\<bar>t\<bar> \<le> 2 powi 1002" by auto
    with round_js_finite[OF _ that(4,5)] show ?thesis by simp
  qed
  have "all_finite \<lparr>fckMean = round_js (Some (fckMean_raw (Fin q))) 2,
          w_c = round_js (Some (w_c_raw (Fin q))) 3,
          water = round_js (Some (water_raw (Fin q))) 2,
          cement = round_js (Some (cement_raw (Fin q))) 2,
          fineAgg = round_js (Some (fineAgg_raw (Fin q))) 2,
          coarseAgg = round_js (Some (coarseAgg_raw (Fin q))) 2,
          checks = ch\<rparr>" for ch
    unfolding all_finite_def raw_quadratic
    by (simp add: fin Math_pow10_2 Math_pow10_3)
  then show "\<exists>r. computeMixDesign s2n fck k = Some r \<and> all_finite r"
    unfolding computeMixDesign_Some[OF v] x by blast
qed

text \<open>
  The hypotheses of C2 hold at \<open>fck = 20\<close>; \<open>fck = 0\<close>, the second scenario, is a failure.
\<close>

theorem strength_validation_witness:
  "Number_js unparsed (JNum (Fin 20)) = Fin 20 \<and> (0::rat) < 20 \<and> (20::rat) \<le> 10 ^ 150
   \<and> (\<exists>r. computeMixDesign unparsed (JNum (Fin 20)) (Some ''moderate'') = Some r \<and> all_finite r)
   \<and> computeMixDesign unparsed (JNum (Fin 0)) (Some ''moderate'') = None"
proof -
  have h: "Number_js unparsed (JNum (Fin 20)) = Fin 20" "(0::rat) < 20" "(20::rat) \<le> 10 ^ 150"
    by simp_all
  from strength_validation[of unparsed "JNum (Fin 20)" "Some ''moderate''"] h
  have "\<exists>r. computeMixDesign unparsed (JNum (Fin 20)) (Some ''moderate'') = Some r \<and> all_finite r"
    by blast
  moreover from strength_validation[of unparsed "JNum (Fin 0)" "Some ''moderate''"]
  have "computeMixDesign unparsed (JNum (Fin 0)) (Some ''moderate'') = None" by simp
  ultimately show ?thesis using h by blast
qed

text \<open>
  C2 as stated, for every positive \<open>fck\<close>, fails on large strengths: \<open>2^600\<close> (about
  \<open>4.1e180\<close>) is a finite positive Number, its square overflows, and the emitted
  waterCementRatio is \<open>Infinity\<close>.
\<close>

theorem finite_fields_counterexample:
  "is_binary64 (Fin (2 ^ 600)) \<and> jslt (Fin 0) (Fin (2 ^ 600))
   \<and> map_option w_c (computeMixDesign unparsed (JNum (Fin (2 ^ 600))) None) = Some (Some PInf)"
proof -
  have v: "\<not> invalid_strength (Number_js unparsed (JNum (Fin (2 ^ 600))))"
    by (simp add: invalid_strength_iff)
  have "map_option w_c (computeMixDesign unparsed (JNum (Fin (2 ^ 600))) None)
      = Some (round_js (Some (w_c_raw (Fin (2 ^ 600)))) 3)"
    by (simp only: computeMixDesign_Some[OF v] option.map mix_result.simps Number_js.simps)
  then have "map_option w_c (computeMixDesign unparsed (JNum (Fin (2 ^ 600))) None)
      = Some (Some PInf)"
    by (simp only: w_c_raw_2_600 round_js_PInf)
  moreover have "jslt (Fin 0) (Fin (2 ^ 600))" by simp
  ultimately show ?thesis using is_binary64_2_600 by blast
qed

subsection \<open>The rounding policy\<close>

text \<open>
  C3, amended.  Every numeric output whose scaled regression \<open>y = raw * 10^d\<close> is finite
  (\<open>d = 3\<close> for waterCementRatio, \<open>d = 2\<close> for the five others) is the Number nearest to
  \<open>n / 10^d\<close>, where \<open>n\<close> is the integer nearest to \<open>y\<close> and a tie goes to the greater
  integer (round half up, towards \<open>+Infinity\<close>): \<open>n - 1/2 \<le> y < n + 1/2\<close>.
\<close>

theorem outputs_rounded_half_up:
  assumes "(f, g, d) \<in> set outputs" "computeMixDesign s2n fck k = Some r"
    and "fmul (g (Number_js s2n fck)) (Fin (10 ^ d)) = Fin y"
  shows "\<exists>n. f r = Some (fl (of_int n / 10 ^ d)) \<and> of_int n - 1 / 2 \<le> y \<and> y < of_int n + 1 / 2"
proof -
  from outputs_cases[OF assms(1,2)]
  have "f r = round_js (Some (g (Number_js s2n fck))) d" "Math_pow10 d = Fin (10 ^ d)" by simp_all
  with round_js_scaled[OF assms(3)]
  have "f r = Some (fl (of_int \<lfloor>y + 1 / 2\<rfloor> / 10 ^ d))" by simp
  with Math_round_half_up[of y] show ?thesis by blast
qed

text \<open>
  The hypotheses of C3 hold for fineAggregate at \<open>fck = 205\<close>.
\<close>

theorem outputs_rounded_half_up_witness:
  "(fineAgg, fineAgg_raw, 2) \<in> set outputs
   \<and> computeMixDesign unparsed (JNum (Fin 205)) None
       = Some (the (computeMixDesign unparsed (JNum (Fin 205)) None))
   \<and> fmul (fineAgg_raw (Number_js unparsed (JNum (Fin 205)))) (Fin (10 ^ 2)) = Fin (- (445341 / 2))
   \<and> (\<exists>n. fineAgg (the (computeMixDesign unparsed (JNum (Fin 205)) None))
         = Some (fl (of_int n / 10 ^ 2))
       \<and> of_int n - 1 / 2 \<le> - (445341 / 2 :: rat) \<and> - (445341 / 2 :: rat) < of_int n + 1 / 2)"
proof -
  let ?c = "computeMixDesign unparsed (JNum (Fin 205)) None"
  have v: "\<not> invalid_strength (Number_js unparsed (JNum (Fin 205)))" using valid_205 by simp
  have s: "?c = Some (the ?c)" unfolding computeMixDesign_Some[OF v] by simp
  have m: "(fineAgg, fineAgg_raw, 2) \<in> set outputs" by (simp add: outputs_def)
  have y: "fmul (fineAgg_raw (Number_js unparsed (JNum (Fin 205)))) (Fin (10 ^ 2))
      = Fin (- (445341 / 2))"
    using fineAgg_scaled_205 by (simp only: Number_js.simps fineAgg_raw_205)
  from outputs_rounded_half_up[OF m s y] m s y show ?thesis by blast
qed

text \<open>
  C3 as stated, with ties away from zero, fails at \<open>fck = 205\<close>: the scaled fineAggregate
  is -222670.5 and the output is -2226.7, where the specification's policy gives -2226.71.
\<close>

theorem half_away_counterexample:
  "map_option fineAgg (computeMixDesign unparsed (JNum (Fin 205)) None)
     \<noteq> Some (spec_round (fineAgg_raw (Fin 205)) 2)"
proof -
  have v: "\<not> invalid_strength (Number_js unparsed (JNum (Fin 205)))" using valid_205 by simp
  show ?thesis
    unfolding computeMixDesign_Some[OF v]
    using lit_22267
    by (simp add: fineAgg_raw_205 fineAgg_rounded_205 fineAgg_spec_round_205)
qed

subsection \<open>Exposure resolution and its fallback\<close>

text \<open>
  C4 at a failing input.  The identifier \<open>toString\<close> is none of the five keys, yet the
  lookup does not fall back to the mild class: it yields the member of that name inherited
  from \<open>Object.prototype\<close>.  For \<open>fck = 30\<close> the returned limits are that member and gradeOk
  is false, although 30 meets the minimum grade of the mild class.  For an identifier that
  is neither a key nor the name of such a member the fallback works (lemmas
  \<open>resolve_limits_unknown\<close>, \<open>resolve_limits_absent\<close>, \<open>resolve_limits_empty\<close>, \<open>scenario_3\<close>).
\<close>

theorem inherited_member_not_mild:
  "map_option (limits \<circ> checks) (computeMixDesign unparsed (JNum (Fin 30)) (Some ''toString''))
     = Some (Inherited ''toString'')
   \<and> map_option (isGradeOk \<circ> checks) (computeMixDesign unparsed (JNum (Fin 30)) (Some ''toString''))
     = Some False
   \<and> jsge (Fin 30) (minGradeFck mild)"
proof -
  have v: "\<not> invalid_strength (Number_js unparsed (JNum (Fin 30)))" using valid_30 by simp
  have "jsge (Fin 30) (minGradeFck mild)"
    by (simp add: jsge_def mild_def lit_def fl_eval)
  then show ?thesis
    unfolding computeMixDesign_Some[OF v]
    by (simp add: resolve_limits_toString jsge_def)
qed

subsection \<open>The regressions are the specified quadratics\<close>

text \<open>
  C5.  Each of the six numeric outputs is the rounding of the quadratic
  \<open>a*x*x + b*x + c\<close> in \<open>x = fck\<close> with the coefficients of the specification's table:
  targetMeanStrength (-0.0035, 1.3074, 1.6883), waterCementRatio (0.000009, -0.0044,
  0.5617), waterContent (-0.0107, -0.0941, 195.56), cementContent (-0.0308, 4.7223, 298.78),
  fineAggregate (-0.1156, 10.473, 484.42), coarseAggregate (0.0335, -5.2723, 1234.4).  The
  quadratic is computed in Number arithmetic, where a subtracted term equals the added term
  with the negated coefficient; for a strength up to 1024 the Number so computed differs
  from the exact value of the quadratic, its decimal coefficients taken exactly, by at most
  \<open>2^-28\<close>.
\<close>

theorem outputs_are_quadratics:
  assumes "(f, d, a, b, c) \<in> set regressions" "computeMixDesign s2n fck k = Some r"
  shows "f r = round_js (Some (quadratic a b c (Number_js s2n fck))) d
    \<and> (\<forall>q. Number_js s2n fck = Fin q \<longrightarrow> q \<le> 1024 \<longrightarrow>
         (\<exists>t. quadratic a b c (Fin q) = Fin t
            \<and> \<bar>t - (a * q * q + b * q + c)\<bar> \<le> 2 powi (- 28)))"
proof (intro conjI allI impI)
  note rc = regressions_cases[OF assms]
  from rc show "f r = round_js (Some (quadratic a b c (Number_js s2n fck))) d" by simp
  fix q
  assume x: "Number_js s2n fck = Fin q" and q: "q \<le> 1024"
  from assms(2) have "\<not> invalid_strength (Number_js s2n fck)"
    using computeMixDesign_None_iff[of s2n fck k] by auto
  from valid_cases[OF this] x have "0 \<le> q" by simp
  with rc q show "\<exists>t. quadratic a b c (Fin q) = Fin t
      \<and> \<bar>t - (a * q * q + b * q + c)\<bar> \<le> 2 powi (- 28)"
    by (intro quadratic_accuracy) simp_all
qed

text \<open>
  The hypotheses of C5 hold for waterCementRatio at \<open>fck = 20\<close>.
\<close>

theorem outputs_are_quadratics_witness:
  "(w_c, 3, 9 / 1000000, - (44 / 10000), 5617 / 10000) \<in> set regressions
   \<and> computeMixDesign unparsed (JNum (Fin 20)) (Some ''moderate'')
     = Some (the (computeMixDesign unparsed (JNum (Fin 20)) (Some ''moderate'')))
   \<and> Number_js unparsed (JNum (Fin 20)) = Fin 20 \<and> (20 :: rat) \<le> 1024
   \<and> w_c (the (computeMixDesign unparsed (JNum (Fin 20)) (Some ''moderate''))) =
      round_js (Some (quadratic (9 / 1000000) (- (44 / 10000)) (5617 / 10000)
        (Number_js unparsed (JNum (Fin 20))))) 3
   \<and> (\<exists>t. quadratic (9 / 1000000) (- (44 / 10000)) (5617 / 10000) (Fin 20) = Fin t
        \<and> \<bar>t - (9 / 1000000 * 20 * 20 + - (44 / 10000) * 20 + 5617 / 10000)\<bar> \<le> 2 powi (- 28))"
proof -
  let ?c = "computeMixDesign unparsed (JNum (Fin 20)) (Some ''moderate'')"
  have v: "\<not> invalid_strength (Number_js unparsed (JNum (Fin 20)))" using valid_20 by simp
  have s: "?c = Some (the ?c)" unfolding computeMixDesign_Some[OF v] by simp
  have m: "(w_c, 3, 9 / 1000000, - (44 / 10000), 5617 / 10000) \<in> set regressions"
    by (simp add: regressions_def)
  have x: "Number_js unparsed (JNum (Fin 20)) = Fin 20" "(20 :: rat) \<le> 1024" by simp_all
  from outputs_are_quadratics[OF m s] m s x show ?thesis by blast
qed

subsection \<open>The compliance flags\<close>

text \<open>
  C6 at a failing input.  For \<open>fck = 30\<close> and the exposure identifier \<open>toString\<close> the three
  flags are not the comparisons with the limits of the resolved class: all three are
  false, although the water-cement ratio, the cement content and the strength meet the
  limits of the mild class, the class an identifier outside the five keys resolves to.
  The limits are read from the member inherited from \<open>Object.prototype\<close>, the lookup of C4.
  Where the lookup yields an exposure class the flags are the three comparisons with its
  limits, and a result is returned whatever their values (lemma
  \<open>compliance_flags_on_class\<close>).
\<close>

theorem compliance_flags_inherited:
  "map_option checks (computeMixDesign unparsed (JNum (Fin 30)) (Some ''toString''))
     = Some \<lparr>isWcOk = False, isCementOk = False, isGradeOk = False,
         limits = Inherited ''toString''\<rparr>
   \<and> jsle (w_c_raw (Fin 30)) (maxWc mild)
   \<and> jsge (cement_raw (Fin 30)) (minCement mild)
   \<and> jsge (Fin 30) (minGradeFck mild)"
proof -
  have v: "\<not> invalid_strength (Number_js unparsed (JNum (Fin 30)))" using valid_30 by simp
  have "map_option checks (computeMixDesign unparsed (JNum (Fin 30)) (Some ''toString''))
      = Some \<lparr>isWcOk = False, isCementOk = False, isGradeOk = False,
          limits = Inherited ''toString''\<rparr>"
    unfolding computeMixDesign_Some[OF v] by (simp add: resolve_limits_toString jsge_def)
  moreover have "jsle (w_c_raw (Fin 30)) (maxWc mild)"
    by (simp add: raw_30 mild_limits)
  moreover have "jsge (cement_raw (Fin 30)) (minCement mild)"
    by (simp add: raw_30 mild_limits jsge_def)
  moreover have "jsge (Fin 30) (minGradeFck mild)"
    by (simp add: mild_limits jsge_def)
  ultimately show ?thesis by blast
qed

subsection \<open>Compliance is checked before rounding\<close>



subsection \<open>The sign of the water-cement ratio\<close>

text \<open>
  C9, amended.  For every finite \<open>fck\<close> accepted by validation the unrounded
  waterCementRatio is strictly positive (it is \<open>Infinity\<close> when the square overflows), and
  for every accepted \<open>fck\<close>, the infinite one included, the emitted waterCementRatio is
  never negative: it is \<open>null\<close> or a number that is at least 0.
\<close>

theorem water_cement_ratio_sign:
  assumes b: "is_binary64 (Number_js s2n fck)" and c: "computeMixDesign s2n fck k = Some r"
  shows "(Number_js s2n fck \<noteq> PInf \<longrightarrow> jslt (Fin 0) (w_c_raw (Number_js s2n fck)))
    \<and> (w_c r = None \<or> (\<exists>v. w_c r = Some v \<and> jsle (Fin 0) v))"
proof -
  from c have v: "\<not> invalid_strength (Number_js s2n fck)"
    using computeMixDesign_None_iff[of s2n fck k] by auto
  from c have r: "w_c r = round_js (Some (w_c_raw (Number_js s2n fck))) 3"
    unfolding computeMixDesign_Some[OF v] by auto
  from valid_cases[OF v] show ?thesis
  proof
    assume "Number_js s2n fck = PInf"
    then show ?thesis by (simp add: r raw_PInf)
  next
    assume "\<exists>q. Number_js s2n fck = Fin q \<and> 0 < q"
    then obtain q where q: "Number_js s2n fck = Fin q" "0 < q" by blast
    from b have "fl q = Fin q" by (simp add: q(1))
    from fl_Fin_bound[OF this] q(2) have "q < 2 ^ 1024" by simp
    from w_c_raw_pos[OF q(2) this]
    have W: "w_c_raw (Fin q) = PInf \<or> (\<exists>w. w_c_raw (Fin q) = Fin w \<and> 2 powi (- 8) \<le> w)" .
    have p8: "(0::rat) < 2 powi (- 8)" by (rule pow2_pos)
    from W p8 have pos: "jslt (Fin 0) (w_c_raw (Fin q))" by auto
    from W p8 have "w_c_raw (Fin q) = PInf \<or> (\<exists>w. w_c_raw (Fin q) = Fin w \<and> 0 \<le> w)"
      by (auto intro: less_imp_le less_le_trans)
    moreover have "Math_pow10 3 = Fin (10 ^ 3)" by (simp add: Math_pow10_3)
    ultimately have "\<exists>v. round_js (Some (w_c_raw (Fin q))) 3 = Some v \<and> jsle (Fin 0) v"
      by (rule round_js_nonneg)
    then
    have "\<exists>v. w_c r = Some v \<and> jsle (Fin 0) v" by (simp add: r q(1))
    with pos show ?thesis by (simp add: q(1))
  qed
qed

text \<open>
  The hypotheses of C9 hold at \<open>fck = 20\<close>.
\<close>

theorem water_cement_ratio_sign_witness:
  "is_binary64 (Number_js unparsed (JNum (Fin 20)))
   \<and> computeMixDesign unparsed (JNum (Fin 20)) (Some ''moderate'')
     = Some (the (computeMixDesign unparsed (JNum (Fin 20)) (Some ''moderate'')))
   \<and> Number_js unparsed (JNum (Fin 20)) \<noteq> PInf
   \<and> jslt (Fin 0) (w_c_raw (Number_js unparsed (JNum (Fin 20))))
   \<and> (w_c (the (computeMixDesign unparsed (JNum (Fin 20)) (Some ''moderate''))) = None
      \<or> (\<exists>v. w_c (the (computeMixDesign unparsed (JNum (Fin 20)) (Some ''moderate''))) = Some v
        \<and> jsle (Fin 0) v))"
proof -
  let ?c = "computeMixDesign unparsed (JNum (Fin 20)) (Some ''moderate'')"
  have v: "\<not> invalid_strength (Number_js unparsed (JNum (Fin 20)))" using valid_20 by simp
  have b: "is_binary64 (Number_js unparsed (JNum (Fin 20)))" by (simp add: fl_eval)
  have s: "?c = Some (the ?c)" unfolding computeMixDesign_Some[OF v] by simp
  have n: "Number_js unparsed (JNum (Fin 20)) \<noteq> PInf" by simp
  from water_cement_ratio_sign[OF b s] n b s show ?thesis by blast
qed

text \<open>
  C9 as stated fails at \<open>fck = Infinity\<close>, which validation accepts: the unrounded ratio is
  \<open>Infinity - Infinity\<close>, that is NaN, and no comparison with NaN holds.
\<close>

theorem water_cement_ratio_Infinity_counterexample:
  "is_binary64 (Number_js unparsed (JNum PInf))
   \<and> computeMixDesign unparsed (JNum PInf) None \<noteq> None
   \<and> \<not> jslt (Fin 0) (w_c_raw (Number_js unparsed (JNum PInf)))"
  by (simp add: computeMixDesign_None_iff invalid_strength_iff raw_PInf)

subsection \<open>An infinite strength\<close>

text \<open>
  C10, amended.  For \<open>fck = Infinity\<close> the computation does not return the failure: it
  returns a result whose targetMeanStrength, waterCementRatio, cementContent, fineAggregate
  and coarseAggregate are \<open>null\<close> and whose waterContent is \<open>-Infinity\<close>; waterCementRatioOk
  and cementContentOk are false, and gradeOk is true whenever the exposure identifier
  resolves to an exposure class, since \<open>Infinity >= minGradeFck\<close> holds (it is false only on
  a member inherited from the prototype, whose limit is \<open>undefined\<close>).
\<close>

theorem computeMixDesign_Infinity:
  "computeMixDesign s2n (JNum PInf) k =
     Some \<lparr>fckMean = None, w_c = None, water = Some NInf, cement = None, fineAgg = None,
       coarseAgg = None,
       checks = \<lparr>isWcOk = False, isCementOk = False,
         isGradeOk = (case resolve_limits k of ExposureClass e \<Rightarrow> True | Inherited m \<Rightarrow> False),
         limits = resolve_limits k\<rparr>\<rparr>"
proof -
  have g: "jsle (limit_of minGradeFck (resolve_limits k)) PInf =
      (case resolve_limits k of ExposureClass e \<Rightarrow> True | Inherited m \<Rightarrow> False)"
  proof (cases "resolve_limits k")
    case (ExposureClass e)
    with resolve_limits_class_grade[OF this] show ?thesis
      by (cases "minGradeFck e") simp_all
  next
    case (Inherited m)
    then show ?thesis by simp
  qed
  have v: "\<not> invalid_strength (Number_js s2n (JNum PInf))" using valid_PInf by simp
  show ?thesis
    unfolding computeMixDesign_Some[OF v]
    by (simp add: raw_PInf round_js_NInf_2 jsge_def g)
qed

text \<open>
  C10 as stated, with all three flags false, fails: for \<open>fck = Infinity\<close> and the exposure
  \<open>mild\<close> the flag gradeOk is true.
\<close>

theorem Infinity_gradeOk_counterexample:
  "map_option (isGradeOk \<circ> checks) (computeMixDesign unparsed (JNum PInf) (Some ''mild''))
     = Some True"
proof -
  have v: "\<not> invalid_strength (Number_js unparsed (JNum PInf))" using valid_PInf by simp
  have "resolve_limits (Some ''mild'') = ExposureClass mild"
    by (simp add: resolve_limits_def get_EXPOSURES_def property_key_def EXPOSURES_def)
  moreover have "minGradeFck mild = Fin 20" by (simp add: mild_def lit_def fl_eval)
  ultimately show ?thesis
    unfolding computeMixDesign_Some[OF v] by (simp add: jsge_def)
qed

end
